theory Spec2Isabelle
  imports Main "HOL-Library.Sublist"
begin

section \<open>JavaScript string primitives used by the device manager\<close>

text \<open>
  Strings are lists of 8-bit characters, so a listing is modelled up to Latin-1; the source
  compares and counts UTF-16 code units, which coincide with these characters there. The
  JavaScript built-ins the source calls are written out with their corner cases: \<open>indexOf\<close> answers \<open>-1\<close> when the pattern does not
  occur, \<open>slice\<close> counts a negative bound from the end of the string, \<open>split\<close> keeps
  empty pieces, and concatenating \<open>undefined\<close> to a string gives the text
  \<open>undefined\<close>. \<open>trim\<close> removes the white space and line terminators that fit
  into one byte (tab, line feed, vertical tab, form feed, carriage return, space and no-break
  space).
\<close>

fun find_at :: "string \<Rightarrow> string \<Rightarrow> nat \<Rightarrow> int" where
  "find_at pat [] k = (if pat = [] then int k else - 1)"
| "find_at pat (c # cs) k = (if prefix pat (c # cs) then int k else find_at pat cs (Suc k))"

definition indexOf :: "string \<Rightarrow> string \<Rightarrow> int \<Rightarrow> int" where
  "indexOf s pat position =
     (let pos = min (nat position) (length s) in find_at pat (drop pos s) pos)"

definition slice :: "string \<Rightarrow> int \<Rightarrow> int \<Rightarrow> string" where
  "slice s start end =
     (let len = int (length s);
          from = (if start < 0 then max (len + start) 0 else min start len);
          to = (if end < 0 then max (len + end) 0 else min end len)
      in take (nat (to - from)) (drop (nat from) s))"

definition isWhiteSpace :: "char \<Rightarrow> bool" where
  "isWhiteSpace c = (of_char c \<in> {9, 10, 11, 12, 13, 32, 160 :: nat})"

definition trim :: "string \<Rightarrow> string" where
  "trim s = rev (dropWhile isWhiteSpace (rev (dropWhile isWhiteSpace s)))"

fun js_split :: "char \<Rightarrow> string \<Rightarrow> string list" where
  "js_split sep [] = [[]]"
| "js_split sep (c # cs) =
     (let r = js_split sep cs in if c = sep then [] # r else (c # hd r) # tl r)"

definition nth_opt :: "'a list \<Rightarrow> nat \<Rightarrow> 'a option" where
  "nth_opt xs i = (if i < length xs then Some (xs ! i) else None)"

fun str :: "string option \<Rightarrow> string" where
  "str None = ''undefined''"
| "str (Some s) = s"

section \<open>Device descriptors\<close>

datatype error = Error string | TypeError string

record device_json =
  tag :: string
  platform :: string
  identifier' :: string
  name :: string
  OS :: string
  simulator :: bool
  destination :: string

definition createDevice :: "string \<Rightarrow> string \<Rightarrow> error + device_json" where
  "createDevice oslevel line =
     (if indexOf line ''unavailable'' 0 \<noteq> - 1
      then Inl (Error (''createDevice-fed an unavailable device:'' @ oslevel @ '':'' @ line))
      else
        let openParenIndex = indexOf line ''('' 0;
            closeParenIndex = indexOf line '')'' 0
        in if openParenIndex = - 1
           then Inl (Error (''createDevice: could not find open paren in: '' @ oslevel @ '':'' @ line))
           else if closeParenIndex = - 1
           then Inl (Error (''createDevice: could not find close paren in: '' @ oslevel @ '':'' @ line))
           else
             let ident = slice line (openParenIndex + 1) closeParenIndex
             in if length ident < 10
                then Inl (Error (''createDevice: could not find valid identifier in:'' @ oslevel @ '':'' @ line))
                else
                  let nm = trim (slice line 0 openParenIndex);
                      osVersion = nth_opt (js_split CHR '' '' oslevel) 1
                  in Inr \<lparr> tag = ''ios-simulator,OS='' @ str osVersion @ '',name='' @ nm,
                           platform = ''ios'',
                           identifier' = ident,
                           name = ''ios-simulator '' @ nm @ '' ('' @ str osVersion @ '')'',
                           OS = oslevel,
                           simulator = True,
                           destination = ''OS='' @ str osVersion @ '',name='' @ nm \<rparr>)"

definition isHeader :: "string \<Rightarrow> bool" where
  "isHeader line = (let snippet = slice line 0 2 in snippet = ''--'' \<or> snippet = ''=='')"

section \<open>The line stream over the simctl listing\<close>

text \<open>
  \<open>makeSimctlStream\<close> closes over the array of lines and a cursor \<open>nextIndex\<close>; the
  methods that move the cursor return the stream they leave behind.
\<close>

record simctl_stream =
  lines :: "string list"
  nextIndex :: nat

definition makeSimctlStream :: "string list \<Rightarrow> simctl_stream" where
  "makeSimctlStream ls = \<lparr> lines = ls, nextIndex = 0 \<rparr>"

definition hasMore :: "simctl_stream \<Rightarrow> bool" where
  "hasMore s = (nextIndex s < length (lines s))"

definition stream_next :: "simctl_stream \<Rightarrow> string option \<times> simctl_stream" where
  "stream_next s =
     (if hasMore s then (Some (lines s ! nextIndex s), s\<lparr>nextIndex := nextIndex s + 1\<rparr>)
      else (None, s))"

definition peek :: "simctl_stream \<Rightarrow> string option" where
  "peek s = nth_opt (lines s) (nextIndex s)"

function advanceTillMatch :: "string \<Rightarrow> simctl_stream \<Rightarrow> error + simctl_stream" where
  "advanceTillMatch line s =
     (case stream_next s of
        (None, s') \<Rightarrow> Inl (Error (''unexpected end while advancingTillMatch:'' @ line))
      | (Some v, s') \<Rightarrow>
          if slice v 0 (int (length line)) \<noteq> line then advanceTillMatch line s' else Inr s')"
  by pat_completeness auto
termination
  by (relation "measure (\<lambda>(line, s). length (lines s) - nextIndex s)")
     (auto simp: stream_next_def hasMore_def split: if_splits)

definition nextValue :: "simctl_stream \<Rightarrow> error + (string \<times> simctl_stream)" where
  "nextValue s =
     (case stream_next s of
        (None, s') \<Rightarrow> Inl (Error ''unexpected end during nextValue()'')
      | (Some v, s') \<Rightarrow> Inr (v, s'))"

definition nextValueAsOSLevel :: "simctl_stream \<Rightarrow> error + (string \<times> simctl_stream)" where
  "nextValueAsOSLevel s =
     (case nextValue s of
        Inl e \<Rightarrow> Inl e
      | Inr (v, s') \<Rightarrow>
          if indexOf v ''--'' 0 \<noteq> 0
          then Inl (Error (''expected oslevel prefix of \"--\" in:'' @ v))
          else
            let sliceStart = 2; sliceEnd = indexOf v ''--'' 2
            in Inr (trim (slice v sliceStart sliceEnd), s'))"

definition peekIsHeader :: "simctl_stream \<Rightarrow> bool" where
  "peekIsHeader s =
     (hasMore s \<and> (case peek s of Some l \<Rightarrow> isHeader l | None \<Rightarrow> False))"

definition peekHasNextLineEntry :: "simctl_stream \<Rightarrow> bool" where
  "peekHasNextLineEntry s = (hasMore s \<and> \<not> peekIsHeader s)"

definition peekIsDoubleEquals :: "simctl_stream \<Rightarrow> error + bool" where
  "peekIsDoubleEquals s =
     (case peek s of
        None \<Rightarrow> Inl (TypeError ''Cannot read property indexOf of undefined'')
      | Some l \<Rightarrow> Inr (indexOf l ''=='' 0 = 0))"

section \<open>Folding the stream into devices\<close>

text \<open>
  The two nested \<open>while\<close> loops of \<open>getOSLevelEntries\<close>: \<open>entriesLoop\<close> is the inner
  one, reading the entry lines below one OS level header, \<open>osLevelLoop\<close> the outer one.
  Both carry the array \<open>results\<close> and the stream.
\<close>

function entriesLoop ::
  "string \<Rightarrow> device_json list \<Rightarrow> simctl_stream \<Rightarrow> error + (device_json list \<times> simctl_stream)" where
  "entriesLoop oslevel results s =
     (if peekHasNextLineEntry s then
        (case nextValue s of
           Inl e \<Rightarrow> Inl e
         | Inr (line, s') \<Rightarrow>
             if indexOf line ''unavailable'' 0 = - 1 then
               (case createDevice oslevel line of
                  Inl e \<Rightarrow> Inl e
                | Inr d \<Rightarrow> entriesLoop oslevel (results @ [d]) s')
             else entriesLoop oslevel results s')
      else Inr (results, s))"
  by pat_completeness auto
termination
  by (relation "measure (\<lambda>(oslevel, results, s). length (lines s) - nextIndex s)")
     (auto simp: nextValue_def stream_next_def hasMore_def peekHasNextLineEntry_def
           split: if_splits)

function osLevelLoop ::
  "device_json list \<Rightarrow> simctl_stream \<Rightarrow> error + (device_json list \<times> simctl_stream)" where
  "osLevelLoop results s =
     (if hasMore s then
        (case peekIsDoubleEquals s of
           Inl e \<Rightarrow> Inl e
         | Inr b \<Rightarrow>
             if \<not> b then
               (case nextValueAsOSLevel s of
                  Inl e \<Rightarrow> Inl e
                | Inr (oslevel, s1) \<Rightarrow>
                    (case entriesLoop oslevel results s1 of
                       Inl e \<Rightarrow> Inl e
                     | Inr (results', s2) \<Rightarrow> osLevelLoop results' s2))
             else Inr (results, s))
      else Inr (results, s))"
  by pat_completeness auto
termination
proof (relation "measure (\<lambda>(results, s). length (lines s) - nextIndex s)")
  show "wf (measure (\<lambda>(results, s). length (lines s) - nextIndex s))"
    by simp
next
  fix results :: "device_json list" and s s1 s2 :: simctl_stream
    and b oslevel results' x y
  assume more: "hasMore s"
    and os: "nextValueAsOSLevel s = Inr x" "(oslevel, s1) = x"
    and en: "entriesLoop oslevel results s1 = Inr y" "(results', s2) = y"
  have mono: "entriesLoop l r t = Inr (r', t') \<Longrightarrow>
      lines t' = lines t \<and> nextIndex t \<le> nextIndex t'" for l r t r' t'
  proof (induction l r t rule: entriesLoop.induct)
    case (1 l r t)
    show ?case
    proof (cases "peekHasNextLineEntry t")
      case False
      with "1.prems" show ?thesis by simp
    next
      case True
      then obtain v where nv: "nextValue t = Inr (v, t\<lparr>nextIndex := nextIndex t + 1\<rparr>)"
        by (auto simp: nextValue_def stream_next_def peekHasNextLineEntry_def)
      show ?thesis
      proof (cases "indexOf v ''unavailable'' 0 = - 1")
        case skip: False
        from "1.prems" True nv skip
        have "entriesLoop l r (t\<lparr>nextIndex := nextIndex t + 1\<rparr>) = Inr (r', t')"
          by simp
        from "1.IH"(2) [OF True nv refl skip this] show ?thesis by simp
      next
        case keep: True
        from "1.prems" True nv keep obtain d where
          d: "createDevice l v = Inr d"
          and rec: "entriesLoop l (r @ [d]) (t\<lparr>nextIndex := nextIndex t + 1\<rparr>) = Inr (r', t')"
          by (auto split: sum.splits)
        from "1.IH"(1) [OF True nv refl keep d rec] show ?thesis by simp
      qed
    qed
  qed
  from os have s1: "lines s1 = lines s" "nextIndex s1 = nextIndex s + 1"
    by (auto simp: nextValueAsOSLevel_def nextValue_def stream_next_def Let_def
             split: if_splits sum.splits prod.splits)
  from en mono [of oslevel results s1 results' s2]
  have "lines s2 = lines s1" "nextIndex s1 \<le> nextIndex s2" by auto
  with s1 more
  show "((results', s2), (results, s)) \<in> measure (\<lambda>(results, s). length (lines s) - nextIndex s)"
    by (auto simp: hasMore_def)
qed

definition getOSLevelEntries ::
  "simctl_stream \<Rightarrow> error + (device_json list \<times> simctl_stream)" where
  "getOSLevelEntries s = osLevelLoop [] s"

definition getSimulatedDevicesFromLines :: "string list \<Rightarrow> error + device_json list" where
  "getSimulatedDevicesFromLines ls =
     (case advanceTillMatch ''== Device Types =='' (makeSimctlStream ls) of
        Inl e \<Rightarrow> Inl e
      | Inr s1 \<Rightarrow>
          (case advanceTillMatch ''== Devices =='' s1 of
             Inl e \<Rightarrow> Inl e
           | Inr s2 \<Rightarrow>
               (case getOSLevelEntries s2 of
                  Inl e \<Rightarrow> Inl e
                | Inr (results, s3) \<Rightarrow> Inr results)))"

definition getSimulatedDevices :: "string \<Rightarrow> error + device_json list" where
  "getSimulatedDevices simctlString =
     getSimulatedDevicesFromLines (js_split (CHR 0x0A) simctlString)"

section \<open>The device registry\<close>

text \<open>
  The constructor \<open>Device\<close> comes from a module of its own; the registry only applies
  it to each descriptor and reads the field \<open>tag\<close> of what it built. Both are
  parameters here: \<open>mk\<close> is the constructor and \<open>tag_of\<close> reads the tag. The
  configured devices are \<open>None\<close> when \<open>config.devices\<close> is not an array, and
  \<open>simctl\<close> is what running \<open>xcrun simctl list\<close> gave: its output or the error it
  raised.
\<close>

record 'd registry =
  devicesByTag :: "string \<rightharpoonup> 'd"
  devices :: "'d list"

definition register :: "(device_json \<Rightarrow> 'd) \<Rightarrow> ('d \<Rightarrow> string) \<Rightarrow> device_json \<Rightarrow> 'd registry \<Rightarrow> 'd registry" where
  "register mk tag_of json self =
     (let device = mk json
      in \<lparr> devicesByTag = (devicesByTag self)(tag_of device \<mapsto> device),
           devices = devices self @ [device] \<rparr>)"

definition configDevices :: "device_json list option \<Rightarrow> device_json list" where
  "configDevices config_devices = (case config_devices of Some ds \<Rightarrow> ds | None \<Rightarrow> [])"

definition DeviceManager ::
  "(device_json \<Rightarrow> 'd) \<Rightarrow> ('d \<Rightarrow> string) \<Rightarrow> device_json list option \<Rightarrow> error + string
     \<Rightarrow> error + 'd registry" where
  "DeviceManager mk tag_of config_devices simctl =
     (let self = \<lparr> devicesByTag = Map.empty, devices = [] \<rparr>
      in case simctl of
           Inl e \<Rightarrow> Inl e
         | Inr simctlData \<Rightarrow>
             (case getSimulatedDevices simctlData of
                Inl e \<Rightarrow> Inl e
              | Inr simulatedDevices \<Rightarrow>
                  let allDevices = configDevices config_devices @ simulatedDevices
                  in Inr (fold (register mk tag_of) allDevices self)))"

definition findByTag :: "'d registry \<Rightarrow> string \<Rightarrow> 'd option" where
  "findByTag self t = (case devicesByTag self t of Some result \<Rightarrow> Some result | None \<Rightarrow> None)"

section \<open>The repository checkout task\<close>

text \<open>
  \<open>execute\<close> receives the command runner \<open>exec\<close> as an argument. A call of the
  runner is the command, its arguments and the working directory of its options; the runner
  answers with the error it hands to its callback (\<open>None\<close> when the command went well),
  the chunks of standard output it delivered to the \<open>stdout\<close> option meanwhile, and the
  world it leaves behind. The state of a run also lists, in order, the calls issued so far,
  each with what the runner answered.
  \<open>series\<close> is \<open>async.series\<close>: the steps run in order, and the first error ends the
  run and reaches the final callback. \<open>path_join\<close> stands for \<open>path.join\<close>.
\<close>

record params =
  checkout_url :: string
  branch :: "string option"
  project_root :: "string option"
  manifest_file :: "string option"

record task_context =
  working_dir :: string
  bin_dir :: string
  checkout_root :: "string option"
  context_project_root :: "string option"

record exec_call =
  cmd :: string
  args :: "string list"
  cwd :: "string option"

type_synonym task_output = "string \<rightharpoonup> string"

type_synonym ('e, 'w) exec = "exec_call \<Rightarrow> 'w \<Rightarrow> ('e option \<times> string list) \<times> 'w"

record 'e exec_event =
  call :: exec_call
  failure :: "'e option"
  chunks :: "string list"

record ('e, 'w) run_state =
  output' :: task_output
  world :: 'w
  issued :: "'e exec_event list"

definition truthy :: "string option \<Rightarrow> bool" where
  "truthy v = (case v of None \<Rightarrow> False | Some s \<Rightarrow> s \<noteq> [])"

definition run ::
  "('e, 'w) exec \<Rightarrow> exec_call \<Rightarrow> ('e, 'w) run_state
     \<Rightarrow> ('e option \<times> string list) \<times> ('e, 'w) run_state" where
  "run exec c st =
     (case exec c (world st) of
        ((err, out), w') \<Rightarrow>
          ((err, out),
           st\<lparr>world := w',
              issued := issued st @ [\<lparr>call = c, failure = err, chunks = out\<rparr>]\<rparr>))"

fun series :: "('s \<Rightarrow> 'e option \<times> 's) list \<Rightarrow> 's \<Rightarrow> 'e option \<times> 's" where
  "series [] st = (None, st)"
| "series (f # fs) st =
     (case f st of
        (Some e, st') \<Rightarrow> (Some e, st')
      | (None, st') \<Rightarrow> series fs st')"

definition mkdir_step :: "('e, 'w) exec \<Rightarrow> string \<Rightarrow> ('e, 'w) run_state \<Rightarrow> 'e option \<times> ('e, 'w) run_state" where
  "mkdir_step exec checkout st =
     (let c = ''mkdir''; a = [''-p'', checkout]
      in case run exec \<lparr>cmd = c, args = a, cwd = None\<rparr> st of
           ((err, out), st') \<Rightarrow> (err, st'))"

definition init_step ::
  "('e, 'w) exec \<Rightarrow> params \<Rightarrow> string \<Rightarrow> string \<Rightarrow> ('e, 'w) run_state \<Rightarrow> 'e option \<times> ('e, 'w) run_state" where
  "init_step exec ps repoCmd checkout st =
     (let a = [''init'', ''-u'', checkout_url ps]
            @ (if truthy (branch ps) then [''-b'', the (branch ps)] else [])
            @ (if truthy (manifest_file ps) then [''-m'', the (manifest_file ps)] else [])
      in case run exec \<lparr>cmd = repoCmd, args = a, cwd = Some checkout\<rparr> st of
           ((err, out), st') \<Rightarrow> (err, st'))"

definition sync_step ::
  "('e, 'w) exec \<Rightarrow> string \<Rightarrow> string \<Rightarrow> ('e, 'w) run_state \<Rightarrow> 'e option \<times> ('e, 'w) run_state" where
  "sync_step exec repoCmd checkout st =
     (let a = [''sync'', ''-d'', ''-c'', ''--jobs=4'']
      in case run exec \<lparr>cmd = repoCmd, args = a, cwd = Some checkout\<rparr> st of
           ((err, out), st') \<Rightarrow> (err, st'))"

definition stdout :: "string \<Rightarrow> task_output \<Rightarrow> task_output" where
  "stdout data out = (if length data = 41 then out(''version'' \<mapsto> trim data) else out)"

definition revision_step ::
  "('e, 'w) exec \<Rightarrow> string \<Rightarrow> ('e, 'w) run_state \<Rightarrow> 'e option \<times> ('e, 'w) run_state" where
  "revision_step exec project st =
     (let c = ''git''; a = [''rev-parse'', ''HEAD'']
      in case run exec \<lparr>cmd = c, args = a, cwd = Some project\<rparr> st of
           ((err, delivered), st') \<Rightarrow>
             (None, st'\<lparr>output' := fold stdout delivered (output' st')\<rparr>))"

definition execute ::
  "(string list \<Rightarrow> string) \<Rightarrow> params \<Rightarrow> task_context \<Rightarrow> ('e, 'w) exec \<Rightarrow> 'w
     \<Rightarrow> ('e option \<times> task_output) \<times> task_context \<times> ('e, 'w) run_state" where
  "execute path_join ps context exec w =
     (let checkout = path_join [working_dir context, ''project''];
          project = (if truthy (project_root ps)
                     then path_join [checkout, the (project_root ps)] else checkout);
          context' = context\<lparr>checkout_root := Some checkout,
                              context_project_root := Some project\<rparr>;
          repoCmd = path_join [bin_dir context, ''repo'', ''repo'']
      in case series [mkdir_step exec checkout,
                      init_step exec ps repoCmd checkout,
                      sync_step exec repoCmd checkout,
                      revision_step exec project]
                \<lparr>output' = Map.empty, world = w, issued = []\<rparr> of
           (error, st) \<Rightarrow> ((error, output' st), context', st))"

section \<open>Notions used to state the properties\<close>

text \<open>
  The version of an OS level label is the token after its first space, and the text
  \<open>undefined\<close> for a label without a space; the name of an entry line is what stands
  before its first opening parenthesis, trimmed; the identifier is what \<open>createDevice\<close>
  cuts out between the first opening and the first closing parenthesis.
\<close>

definition spec_version :: "string \<Rightarrow> string" where
  "spec_version oslevel =
     (if CHR '' '' \<in> set oslevel
      then takeWhile (\<lambda>c. c \<noteq> CHR '' '') (tl (dropWhile (\<lambda>c. c \<noteq> CHR '' '') oslevel))
      else ''undefined'')"

definition spec_name :: "string \<Rightarrow> string" where
  "spec_name line = trim (takeWhile (\<lambda>c. c \<noteq> CHR ''('') line)"

definition extracted_identifier :: "string \<Rightarrow> string" where
  "extracted_identifier line = slice line (indexOf line ''('' 0 + 1) (indexOf line '')'' 0)"

text \<open>
  The label that \<open>nextValueAsOSLevel\<close> cuts out of a header line. An entry line is
  well formed when it has both parentheses and an identifier of at least 10 characters, and
  \<open>device_of\<close> is the descriptor such a line stands for. A listing that follows the
  grammar is a sequence of groups, each a header line starting with \<open>--\<close> and the entry
  lines below it; an entry line is good when it is no header and either contains
  \<open>unavailable\<close> or is well formed. The devices of a group are those of its entry lines
  without \<open>unavailable\<close>.
\<close>

definition oslevel_of :: "string \<Rightarrow> string" where
  "oslevel_of v = trim (slice v 2 (indexOf v ''--'' 2))"

definition well_formed_entry :: "string \<Rightarrow> bool" where
  "well_formed_entry line \<longleftrightarrow>
     CHR ''('' \<in> set line \<and> CHR '')'' \<in> set line \<and> 10 \<le> length (extracted_identifier line)"

definition device_of :: "string \<Rightarrow> string \<Rightarrow> device_json" where
  "device_of oslevel line =
     \<lparr> tag = ''ios-simulator,OS='' @ spec_version oslevel @ '',name='' @ spec_name line,
       platform = ''ios'',
       identifier' = extracted_identifier line,
       name = ''ios-simulator '' @ spec_name line @ '' ('' @ spec_version oslevel @ '')'',
       OS = oslevel,
       simulator = True,
       destination = ''OS='' @ spec_version oslevel @ '',name='' @ spec_name line \<rparr>"

definition good_entry :: "string \<Rightarrow> bool" where
  "good_entry l \<longleftrightarrow> \<not> isHeader l \<and> (sublist ''unavailable'' l \<or> well_formed_entry l)"

definition good_group :: "string \<times> string list \<Rightarrow> bool" where
  "good_group g \<longleftrightarrow> prefix ''--'' (fst g) \<and> list_all good_entry (snd g)"

definition group_lines :: "string \<times> string list \<Rightarrow> string list" where
  "group_lines g = fst g # snd g"

definition group_devices :: "string \<times> string list \<Rightarrow> device_json list" where
  "group_devices g =
     map (device_of (oslevel_of (fst g))) (filter (\<lambda>l. \<not> sublist ''unavailable'' l) (snd g))"

text \<open>
  Two listings as arrays of lines: one with an entry marked \<open>unavailable\<close> and a
  section after the devices, and one with an entry line that lacks its closing parenthesis.
\<close>

definition simctl_lines :: "string list" where
  "simctl_lines =
     [''== Device Types =='',
      ''iPhone 4s (com.apple.CoreSimulator.SimDeviceType.iPhone-4s)'',
      ''== Runtimes =='',
      ''iOS 9.1 (9.1 - 13B137) (com.apple.CoreSimulator.SimRuntime.iOS-9-1)'',
      ''== Devices =='',
      ''-- iOS 9.1 --'',
      ''iPhone 4s (05686243-BA24-44CE-94D9-D6823BF96E46) (Shutdown)'',
      ''iPhone 5 (unavailable, runtime profile not found'',
      ''== Device Pairs =='',
      ''Watch (1B2C3D4E-AAAA-BBBB-CCCC-0123456789AB) (Shutdown)'']"

definition broken_lines :: "string list" where
  "broken_lines =
     [''== Device Types =='',
      ''== Devices =='',
      ''-- iOS 9.1 --'',
      ''iPhone 4s (05686243-BA24-44CE-94D9-D6823BF96E46) (Shutdown)'',
      ''iPhone 5 (Shutdown'',
      ''iPhone 6 (0A1B2C3D-AAAA-BBBB-CCCC-0123456789AB) (Shutdown)'']"

text \<open>
  Two fixtures: a configured descriptor that carries the tag of the simulator found in the
  example listing, and a listing whose \<open>Devices\<close> section is closed by another header.
\<close>

definition configured_iphone :: device_json where
  "configured_iphone =
     \<lparr> tag = ''ios-simulator,OS=9.1,name=iPhone 4s'',
       platform = ''ios'',
       identifier' = ''configured-device-0001'',
       name = ''configured iPhone 4s'',
       OS = ''iOS 9.1'',
       simulator = False,
       destination = ''id=configured-device-0001'' \<rparr>"

definition discovered_iphone :: device_json where
  "discovered_iphone =
     \<lparr> tag = ''ios-simulator,OS=9.1,name=iPhone 4s'',
       platform = ''ios'',
       identifier' = ''05686243-BA24-44CE-94D9-D6823BF96E46'',
       name = ''ios-simulator iPhone 4s (9.1)'',
       OS = ''iOS 9.1'',
       simulator = True,
       destination = ''OS=9.1,name=iPhone 4s'' \<rparr>"

definition closed_listing :: string where
  "closed_listing =
     ''== Device Types ==\<newline>== Devices ==\<newline>-- iOS 9.1 --\<newline>iPhone 4s (05686243-BA24-44CE-94D9-D6823BF96E46) (Shutdown)\<newline>== Device Pairs ==\<newline>''"

text \<open>
  Fixtures for the checkout task: a plain \<open>path.join\<close>, parameters, a context, and
  two command runners over a world without content, one on which only \<open>git\<close> fails
  and one on which only \<open>repo sync\<close> fails.
\<close>

fun simple_join :: "string list \<Rightarrow> string" where
  "simple_join [] = ''.''"
| "simple_join [p] = p"
| "simple_join (p # ps) = p @ ''/'' @ simple_join ps"

definition checkout_params :: params where
  "checkout_params =
     \<lparr> checkout_url = ''https://example.org/manifest.git'',
       branch = Some ''master'', project_root = None, manifest_file = None \<rparr>"

definition worker_context :: task_context where
  "worker_context =
     \<lparr> working_dir = ''/tmp/job'', bin_dir = ''/opt/bin'',
       checkout_root = None, context_project_root = None \<rparr>"

definition git_fails :: "(string, unit) exec" where
  "git_fails c w =
     ((if cmd c = ''git'' then Some ''fatal: not a git repository'' else None,
       if cmd c = ''git'' then [] else [''ok'']), w)"

definition sync_fails :: "(string, unit) exec" where
  "sync_fails c w =
     ((if hd (args c) = ''sync'' then Some ''error: sync failed'' else None, []), w)"

definition example_listing :: string where
  "example_listing =
     ''== Devices ==\<newline>-- iOS 9.1 --\<newline>iPhone 4s (05686243-BA24-44CE-94D9-D6823BF96E46) (Shutdown)\<newline>''"

section \<open>Facts about the string primitives\<close>

lemma find_at_none_iff: "find_at pat s k = - 1 \<longleftrightarrow> \<not> sublist pat s"
  by (induction s arbitrary: k) (auto simp: sublist_Cons_right)

lemma find_at_ge: "find_at pat s k \<noteq> - 1 \<Longrightarrow> int k \<le> find_at pat s k"
proof (induction s arbitrary: k)
  case Nil
  then show ?case by (simp split: if_splits)
next
  case (Cons c cs)
  show ?case
  proof (cases "prefix pat (c # cs)")
    case True
    then show ?thesis by simp
  next
    case False
    with Cons.prems have "find_at pat cs (Suc k) \<noteq> - 1" by simp
    from Cons.IH [OF this] False show ?thesis by simp
  qed
qed

lemma indexOf_none_iff: "indexOf s pat 0 = - 1 \<longleftrightarrow> \<not> sublist pat s"
  by (simp add: indexOf_def find_at_none_iff)

lemma sublist_single: "sublist [c] s \<longleftrightarrow> c \<in> set s"
  by (induction s) (auto simp: sublist_Cons_right)

lemma find_at_char:
  "c \<in> set s \<Longrightarrow> find_at [c] s k = int (k + length (takeWhile (\<lambda>x. x \<noteq> c) s))"
  by (induction s arbitrary: k) auto

lemma indexOf_char:
  "c \<in> set s \<Longrightarrow> indexOf s [c] 0 = int (length (takeWhile (\<lambda>x. x \<noteq> c) s))"
  by (simp add: indexOf_def find_at_char)

lemma slice_take: "slice s 0 (int n) = take n s"
  by (simp add: slice_def Let_def min_def)

lemma js_split_unfold:
  "js_split sep s = takeWhile (\<lambda>x. x \<noteq> sep) s #
     (case dropWhile (\<lambda>x. x \<noteq> sep) s of [] \<Rightarrow> [] | _ # r \<Rightarrow> js_split sep r)"
  by (induction s) (auto simp: Let_def split: list.splits)

lemma second_token:
  "nth_opt (js_split sep s) 1 =
     (if sep \<in> set s then Some (takeWhile (\<lambda>x. x \<noteq> sep) (tl (dropWhile (\<lambda>x. x \<noteq> sep) s)))
      else None)"
proof (cases "dropWhile (\<lambda>x. x \<noteq> sep) s")
  case Nil
  then have "sep \<notin> set s" by (metis (mono_tags, lifting) dropWhile_eq_Nil_conv)
  moreover have "js_split sep s = [takeWhile (\<lambda>x. x \<noteq> sep) s]"
    by (subst js_split_unfold) (simp only: Nil list.case)
  ultimately show ?thesis
    by (simp add: nth_opt_def)
next
  case (Cons a r)
  then have "sep \<in> set s"
    by (metis (mono_tags, lifting) dropWhile_eq_Nil_conv list.distinct(1))
  moreover have "js_split sep s = takeWhile (\<lambda>x. x \<noteq> sep) s # js_split sep r"
    by (subst js_split_unfold) (simp only: Cons list.case)
  moreover have "js_split sep r = takeWhile (\<lambda>x. x \<noteq> sep) r #
      (case dropWhile (\<lambda>x. x \<noteq> sep) r of [] \<Rightarrow> [] | _ # r' \<Rightarrow> js_split sep r')"
    by (rule js_split_unfold)
  ultimately show ?thesis
    by (simp add: nth_opt_def Cons)
qed

lemma find_at_zero_iff: "find_at pat s 0 = 0 \<longleftrightarrow> prefix pat s"
proof (cases s)
  case Nil
  then show ?thesis by simp
next
  case (Cons c cs)
  show ?thesis
  proof (cases "prefix pat (c # cs)")
    case True
    with Cons show ?thesis by simp
  next
    case False
    have "find_at pat cs (Suc 0) \<noteq> 0"
      using find_at_ge [of pat cs "Suc 0"] by (cases "find_at pat cs (Suc 0) = - 1") auto
    with False Cons show ?thesis by simp
  qed
qed

lemma indexOf_zero_iff: "indexOf s pat 0 = 0 \<longleftrightarrow> prefix pat s"
  by (simp add: indexOf_def find_at_zero_iff)

lemma slice_prefix_iff: "slice v 0 (int (length pat)) = pat \<longleftrightarrow> prefix pat v"
  unfolding slice_take
  by (metis append_eq_conv_conj prefix_def take_is_prefix)

lemma isHeader_iff: "isHeader l \<longleftrightarrow> prefix ''--'' l \<or> prefix ''=='' l"
proof -
  have "slice l 0 2 = take 2 l" using slice_take [of l 2] by simp
  moreover have "take 2 l = p \<longleftrightarrow> prefix p l" if "length p = 2" for p :: string
    using that by (metis append_eq_conv_conj prefix_def take_is_prefix)
  ultimately show ?thesis by (simp add: isHeader_def Let_def)
qed

lemma dash_not_section: "prefix ''--'' l \<Longrightarrow> \<not> prefix ''=='' l"
  by (auto simp: prefix_def)

lemma drop_Cons_nth:
  assumes "drop i ls = l # rest"
  shows "i < length ls" and "ls ! i = l" and "drop (Suc i) ls = rest"
proof -
  show i: "i < length ls"
    using assms by (cases "i < length ls") simp_all
  from Cons_nth_drop_Suc [OF i] assms show "ls ! i = l" "drop (Suc i) ls = rest"
    by simp_all
qed

section \<open>Facts about \<open>createDevice\<close>\<close>

lemma createDevice_accepts:
  assumes "\<not> sublist ''unavailable'' line" and "well_formed_entry line"
  shows "createDevice oslevel line = Inr (device_of oslevel line)"
proof -
  from assms(2) have op': "CHR ''('' \<in> set line" and cl': "CHR '')'' \<in> set line"
    and len: "\<not> length (extracted_identifier line) < 10"
    by (simp_all add: well_formed_entry_def)
  have u: "indexOf line ''unavailable'' 0 = - 1"
    using assms(1) by (simp add: indexOf_none_iff)
  have op: "indexOf line ''('' 0 = int (length (takeWhile (\<lambda>c. c \<noteq> CHR ''('') line))"
    using op' by (rule indexOf_char)
  have cl: "indexOf line '')'' 0 = int (length (takeWhile (\<lambda>c. c \<noteq> CHR '')'') line))"
    using cl' by (rule indexOf_char)
  have nm: "trim (slice line 0 (indexOf line ''('' 0)) = spec_name line"
    unfolding op slice_take spec_name_def
    by (simp only: takeWhile_eq_take [symmetric])
  have v: "str (nth_opt (js_split CHR '' '' oslevel) 1) = spec_version oslevel"
    unfolding second_token spec_version_def by simp
  have ne1: "indexOf line ''('' 0 \<noteq> - 1" using op by simp
  have ne2: "indexOf line '')'' 0 \<noteq> - 1" using cl by simp
  show ?thesis
    unfolding createDevice_def Let_def device_of_def
    by (simp only: u ne1 ne2 nm v extracted_identifier_def [symmetric] len
          if_False if_True simp_thms)
qed

lemma createDevice_rejects:
  assumes "\<not> well_formed_entry line"
  shows "\<exists>p. createDevice oslevel line = Inl (Error (p @ oslevel @ '':'' @ line))"
proof (cases "indexOf line ''unavailable'' 0 = - 1")
  case False
  then show ?thesis by (auto simp: createDevice_def)
next
  case u: True
  show ?thesis
  proof (cases "CHR ''('' \<in> set line")
    case False
    then have "indexOf line ''('' 0 = - 1"
      by (simp add: indexOf_none_iff sublist_single)
    with u show ?thesis by (auto simp: createDevice_def Let_def)
  next
    case op: True
    then have ne1: "indexOf line ''('' 0 \<noteq> - 1"
      by (simp add: indexOf_none_iff sublist_single)
    show ?thesis
    proof (cases "CHR '')'' \<in> set line")
      case False
      then have "indexOf line '')'' 0 = - 1"
        by (simp add: indexOf_none_iff sublist_single)
      with u ne1 show ?thesis by (auto simp: createDevice_def Let_def)
    next
      case cl: True
      then have ne2: "indexOf line '')'' 0 \<noteq> - 1"
        by (simp add: indexOf_none_iff sublist_single)
      from assms op cl have "length (extracted_identifier line) < 10"
        by (simp add: well_formed_entry_def)
      then have "length (slice line (indexOf line ''('' 0 + 1) (indexOf line '')'' 0)) < 10"
        by (simp add: extracted_identifier_def)
      with u ne1 ne2 show ?thesis by (auto simp: createDevice_def Let_def)
    qed
  qed
qed

section \<open>Facts about the stream and the two loops\<close>

text \<open>
  The recursive equations of the loops are unfolded by hand, one step at a time.
\<close>

declare entriesLoop.simps [simp del] osLevelLoop.simps [simp del] advanceTillMatch.simps [simp del]

lemma peekHasNextLineEntry_iff:
  "peekHasNextLineEntry s \<longleftrightarrow>
     nextIndex s < length (lines s) \<and> \<not> isHeader (lines s ! nextIndex s)"
  by (auto simp: peekHasNextLineEntry_def peekIsHeader_def hasMore_def peek_def nth_opt_def)

lemma stream_upd: "s\<lparr>nextIndex := n\<rparr> = \<lparr>lines = lines s, nextIndex = n\<rparr>"
  by simp

lemma nextValue_more:
  "nextIndex s < length (lines s) \<Longrightarrow>
     nextValue s = Inr (lines s ! nextIndex s, \<lparr>lines = lines s, nextIndex = Suc (nextIndex s)\<rparr>)"
  by (simp add: nextValue_def stream_next_def hasMore_def)

lemma entriesLoop_stop:
  "\<not> peekHasNextLineEntry s \<Longrightarrow> entriesLoop oslevel results s = Inr (results, s)"
  by (subst entriesLoop.simps) simp

lemma entriesLoop_step:
  assumes "peekHasNextLineEntry s"
  shows "entriesLoop oslevel results s =
     (if indexOf (lines s ! nextIndex s) ''unavailable'' 0 = - 1 then
        (case createDevice oslevel (lines s ! nextIndex s) of
           Inl e \<Rightarrow> Inl e
         | Inr d \<Rightarrow> entriesLoop oslevel (results @ [d]) (\<lparr>lines = lines s, nextIndex = Suc (nextIndex s)\<rparr>))
      else entriesLoop oslevel results (\<lparr>lines = lines s, nextIndex = Suc (nextIndex s)\<rparr>))"
proof -
  from assms have "nextIndex s < length (lines s)" by (simp add: peekHasNextLineEntry_iff)
  from nextValue_more [OF this] assms show ?thesis
    by (subst entriesLoop.simps) simp
qed

text \<open>What a normal return of the inner loop tells.\<close>

lemma entriesLoop_returns:
  assumes "entriesLoop oslevel results s = Inr (results', s')"
  shows "lines s' = lines s \<and> nextIndex s \<le> nextIndex s' \<and> \<not> peekHasNextLineEntry s' \<and>
         (\<forall>j. nextIndex s \<le> j \<and> j < nextIndex s' \<longrightarrow>
               j < length (lines s) \<and> \<not> isHeader (lines s ! j))"
  using assms
proof (induction oslevel results s rule: entriesLoop.induct)
  case (1 oslevel results s)
  show ?case
  proof (cases "peekHasNextLineEntry s")
    case False
    with "1.prems" show ?thesis by (auto simp: entriesLoop_stop)
  next
    case True
    let ?l = "lines s ! nextIndex s"
    let ?s = "\<lparr>lines = lines s, nextIndex = Suc (nextIndex s)\<rparr>"
    from True have more: "nextIndex s < length (lines s)" and nh: "\<not> isHeader ?l"
      by (simp_all add: peekHasNextLineEntry_iff)
    note nv = nextValue_more [OF more]
    have extend: "lines s' = lines s \<and> nextIndex s \<le> nextIndex s' \<and> \<not> peekHasNextLineEntry s' \<and>
         (\<forall>j. nextIndex s \<le> j \<and> j < nextIndex s' \<longrightarrow>
               j < length (lines s) \<and> \<not> isHeader (lines s ! j))"
      if rec: "lines s' = lines ?s \<and> nextIndex ?s \<le> nextIndex s' \<and> \<not> peekHasNextLineEntry s' \<and>
         (\<forall>j. nextIndex ?s \<le> j \<and> j < nextIndex s' \<longrightarrow>
               j < length (lines ?s) \<and> \<not> isHeader (lines ?s ! j))"
    proof (intro conjI allI impI)
      from rec show "lines s' = lines s" by simp
      from rec show "nextIndex s \<le> nextIndex s'" by simp
      from rec show "\<not> peekHasNextLineEntry s'" by simp
    next
      fix j assume j: "nextIndex s \<le> j \<and> j < nextIndex s'"
      show "j < length (lines s)"
      proof (cases "j = nextIndex s")
        case True with more show ?thesis by simp
      next
        case False
        with j have "nextIndex ?s \<le> j \<and> j < nextIndex s'" by simp
        with rec have "j < length (lines ?s)" by blast
        then show ?thesis by simp
      qed
      show "\<not> isHeader (lines s ! j)"
      proof (cases "j = nextIndex s")
        case True with nh show ?thesis by simp
      next
        case False
        with j have "nextIndex ?s \<le> j \<and> j < nextIndex s'" by simp
        with rec have "\<not> isHeader (lines ?s ! j)" by blast
        then show ?thesis by simp
      qed
    qed
    show ?thesis
    proof (cases "indexOf ?l ''unavailable'' 0 = - 1")
      case skip: False
      from "1.prems" True skip have "entriesLoop oslevel results ?s = Inr (results', s')"
        by (simp add: entriesLoop_step)
      from "1.IH"(2) [OF True nv refl skip this] show ?thesis by (rule extend)
    next
      case keep: True
      from "1.prems" True keep obtain d where d: "createDevice oslevel ?l = Inr d"
        and rec: "entriesLoop oslevel (results @ [d]) ?s = Inr (results', s')"
        by (auto simp: entriesLoop_step split: sum.splits)
      from "1.IH"(1) [OF True nv refl keep d rec] show ?thesis by (rule extend)
    qed
  qed
qed

lemma peekIsDoubleEquals_more:
  "nextIndex s < length (lines s) \<Longrightarrow>
     peekIsDoubleEquals s = Inr (prefix ''=='' (lines s ! nextIndex s))"
  by (simp add: peekIsDoubleEquals_def peek_def nth_opt_def indexOf_zero_iff)

lemma nextValueAsOSLevel_more:
  "nextIndex s < length (lines s) \<Longrightarrow>
     nextValueAsOSLevel s =
       (if prefix ''--'' (lines s ! nextIndex s)
        then Inr (oslevel_of (lines s ! nextIndex s), \<lparr>lines = lines s, nextIndex = Suc (nextIndex s)\<rparr>)
        else Inl (Error (''expected oslevel prefix of \"--\" in:'' @ lines s ! nextIndex s)))"
  by (simp add: nextValueAsOSLevel_def nextValue_more indexOf_zero_iff oslevel_of_def Let_def)

lemma osLevelLoop_end:
  "\<not> nextIndex s < length (lines s) \<Longrightarrow> osLevelLoop results s = Inr (results, s)"
  by (subst osLevelLoop.simps) (simp add: hasMore_def)

lemma osLevelLoop_section:
  "nextIndex s < length (lines s) \<Longrightarrow> prefix ''=='' (lines s ! nextIndex s) \<Longrightarrow>
     osLevelLoop results s = Inr (results, s)"
  by (subst osLevelLoop.simps) (simp add: hasMore_def peekIsDoubleEquals_more)

lemma osLevelLoop_step:
  assumes "nextIndex s < length (lines s)" and "\<not> prefix ''=='' (lines s ! nextIndex s)"
  shows "osLevelLoop results s =
     (if prefix ''--'' (lines s ! nextIndex s) then
        (case entriesLoop (oslevel_of (lines s ! nextIndex s)) results
                (\<lparr>lines = lines s, nextIndex = Suc (nextIndex s)\<rparr>) of
           Inl e \<Rightarrow> Inl e
         | Inr (results', s2) \<Rightarrow> osLevelLoop results' s2)
      else Inl (Error (''expected oslevel prefix of \"--\" in:'' @ lines s ! nextIndex s)))"
  using assms
  by (subst osLevelLoop.simps)
     (simp add: hasMore_def peekIsDoubleEquals_more nextValueAsOSLevel_more)

lemma osLevelLoop_returns:
  assumes "osLevelLoop results s = Inr (results', s')"
  shows "lines s' = lines s \<and> nextIndex s \<le> nextIndex s' \<and>
         (nextIndex s' < length (lines s) \<longrightarrow> prefix ''=='' (lines s ! nextIndex s')) \<and>
         (\<forall>j. nextIndex s \<le> j \<and> j < nextIndex s' \<longrightarrow>
               j < length (lines s) \<and> \<not> prefix ''=='' (lines s ! j))"
  using assms
proof (induction results s rule: osLevelLoop.induct)
  case (1 results s)
  let ?l = "lines s ! nextIndex s"
  let ?s = "\<lparr>lines = lines s, nextIndex = Suc (nextIndex s)\<rparr>"
  show ?case
  proof (cases "nextIndex s < length (lines s)")
    case False
    with "1.prems" show ?thesis by (auto simp: osLevelLoop_end)
  next
    case more: True
    show ?thesis
    proof (cases "prefix ''=='' ?l")
      case True
      with more "1.prems" show ?thesis by (auto simp: osLevelLoop_section)
    next
      case ne: False
      from "1.prems" more ne have dash: "prefix ''--'' ?l"
        by (simp add: osLevelLoop_step split: if_splits)
      from "1.prems" more ne dash obtain r2 s2 where
        inner: "entriesLoop (oslevel_of ?l) results ?s = Inr (r2, s2)"
        and rec: "osLevelLoop r2 s2 = Inr (results', s')"
        by (auto simp: osLevelLoop_step split: sum.splits)
      have hm: "hasMore s" using more by (simp add: hasMore_def)
      have pk: "peekIsDoubleEquals s = Inr False"
        using more ne by (simp add: peekIsDoubleEquals_more)
      have nv: "nextValueAsOSLevel s = Inr (oslevel_of ?l, ?s)"
        using more dash by (simp add: nextValueAsOSLevel_more)
      from "1.IH" [OF hm pk _ nv refl inner refl rec]
      have ih: "lines s' = lines s2 \<and> nextIndex s2 \<le> nextIndex s' \<and>
         (nextIndex s' < length (lines s2) \<longrightarrow> prefix ''=='' (lines s2 ! nextIndex s')) \<and>
         (\<forall>j. nextIndex s2 \<le> j \<and> j < nextIndex s' \<longrightarrow>
               j < length (lines s2) \<and> \<not> prefix ''=='' (lines s2 ! j))"
        by simp
      from entriesLoop_returns [OF inner]
      have en: "lines s2 = lines s" "Suc (nextIndex s) \<le> nextIndex s2"
        "\<forall>j. Suc (nextIndex s) \<le> j \<and> j < nextIndex s2 \<longrightarrow>
               j < length (lines s) \<and> \<not> isHeader (lines s ! j)"
        by simp_all
      show ?thesis
      proof (intro conjI allI impI)
        from ih en show "lines s' = lines s" by simp
        from ih en show "nextIndex s \<le> nextIndex s'" by simp
        from ih en show "prefix ''=='' (lines s ! nextIndex s')"
          if "nextIndex s' < length (lines s)" using that by simp
      next
        fix j assume j: "nextIndex s \<le> j \<and> j < nextIndex s'"
        consider "j = nextIndex s" | "Suc (nextIndex s) \<le> j" "j < nextIndex s2"
          | "nextIndex s2 \<le> j" using j by linarith
        then have "j < length (lines s) \<and> \<not> prefix ''=='' (lines s ! j)"
        proof cases
          case 1
          with more ne show ?thesis by simp
        next
          case 2
          with en(3) show ?thesis by (simp add: isHeader_iff)
        next
          case 3
          with j ih en(1) show ?thesis by simp
        qed
        then show "j < length (lines s)" "\<not> prefix ''=='' (lines s ! j)" by simp_all
      qed
    qed
  qed
qed

text \<open>Two listings that agree before a boundary: the loops cannot tell them apart.\<close>

lemma entriesLoop_agree:
  assumes "take k ls' = take k (lines s)"
    and "nextIndex s \<le> k" and "k \<le> length (lines s)" and "k \<le> length ls'"
    and "k = length (lines s) \<or> isHeader (lines s ! k)"
    and "k = length ls' \<or> isHeader (ls' ! k)"
  shows "entriesLoop oslevel results \<lparr>lines = ls', nextIndex = nextIndex s\<rparr> =
     (case entriesLoop oslevel results s of
        Inl e \<Rightarrow> Inl e
      | Inr (results', s') \<Rightarrow> Inr (results', \<lparr>lines = ls', nextIndex = nextIndex s'\<rparr>))"
  using assms
proof (induction oslevel results s rule: entriesLoop.induct)
  case (1 oslevel results s)
  let ?t = "\<lparr>lines = ls', nextIndex = nextIndex s\<rparr>"
  let ?s = "\<lparr>lines = lines s, nextIndex = Suc (nextIndex s)\<rparr>"
  have same: "peekHasNextLineEntry ?t = peekHasNextLineEntry s"
    and line: "nextIndex s < k \<Longrightarrow> ls' ! nextIndex s = lines s ! nextIndex s"
  proof -
    show l: "ls' ! nextIndex s = lines s ! nextIndex s" if "nextIndex s < k"
      using that "1.prems"(1) by (metis nth_take)
    show "peekHasNextLineEntry ?t = peekHasNextLineEntry s"
    proof (cases "nextIndex s < k")
      case True
      with l "1.prems"(3,4) show ?thesis by (simp add: peekHasNextLineEntry_iff)
    next
      case False
      with "1.prems"(2) have "nextIndex s = k" by simp
      with "1.prems"(5,6) show ?thesis by (auto simp: peekHasNextLineEntry_iff)
    qed
  qed
  show ?case
  proof (cases "peekHasNextLineEntry s")
    case False
    with same show ?thesis by (simp add: entriesLoop_stop)
  next
    case True
    then have more: "nextIndex s < length (lines s)"
      and nh: "\<not> isHeader (lines s ! nextIndex s)"
      by (simp_all add: peekHasNextLineEntry_iff)
    have lt: "nextIndex s < k"
    proof (rule ccontr)
      assume "\<not> nextIndex s < k"
      with "1.prems"(2) have "nextIndex s = k" by simp
      with "1.prems"(5) more nh show False by auto
    qed
    note nv = nextValue_more [OF more]
    have pre: "take k ls' = take k (lines ?s)" "nextIndex ?s \<le> k" "k \<le> length (lines ?s)"
      "k \<le> length ls'" "k = length (lines ?s) \<or> isHeader (lines ?s ! k)"
      "k = length ls' \<or> isHeader (ls' ! k)"
      using "1.prems" lt by simp_all
    have tstep: "peekHasNextLineEntry ?t" using same True by simp
    show ?thesis
    proof (cases "indexOf (lines s ! nextIndex s) ''unavailable'' 0 = - 1")
      case skip: False
      from "1.IH"(2) [OF True nv refl skip pre]
      show ?thesis
        by (simp add: entriesLoop_step [OF True] entriesLoop_step [OF tstep] line [OF lt]
              skip)
    next
      case keep: True
      show ?thesis
      proof (cases "createDevice oslevel (lines s ! nextIndex s)")
        case (Inl e)
        then show ?thesis
          by (simp add: entriesLoop_step [OF True] entriesLoop_step [OF tstep] line [OF lt] keep)
      next
        case (Inr d)
        from "1.IH"(1) [OF True nv refl keep Inr pre]
        show ?thesis
          by (simp add: entriesLoop_step [OF True] entriesLoop_step [OF tstep] line [OF lt]
                keep Inr)
      qed
    qed
  qed
qed

lemma entriesLoop_bounded:
  assumes "entriesLoop oslevel results s = Inr (results', s')"
    and "nextIndex s \<le> k" and "k \<le> length (lines s)"
    and "k = length (lines s) \<or> isHeader (lines s ! k)"
  shows "nextIndex s' \<le> k"
proof (rule ccontr)
  assume "\<not> nextIndex s' \<le> k"
  with assms(2) entriesLoop_returns [OF assms(1)]
  have "k < length (lines s) \<and> \<not> isHeader (lines s ! k)" by simp
  with assms(4) show False by simp
qed

lemma osLevelLoop_agree:
  assumes "take k ls' = take k (lines s)"
    and "nextIndex s \<le> k" and "k \<le> length (lines s)" and "k \<le> length ls'"
    and "k = length (lines s) \<or> prefix ''=='' (lines s ! k)"
    and "k = length ls' \<or> prefix ''=='' (ls' ! k)"
  shows "osLevelLoop results \<lparr>lines = ls', nextIndex = nextIndex s\<rparr> =
     (case osLevelLoop results s of
        Inl e \<Rightarrow> Inl e
      | Inr (results', s') \<Rightarrow> Inr (results', \<lparr>lines = ls', nextIndex = nextIndex s'\<rparr>))"
  using assms
proof (induction results s rule: osLevelLoop.induct)
  case (1 results s)
  let ?t = "\<lparr>lines = ls', nextIndex = nextIndex s\<rparr>"
  let ?l = "lines s ! nextIndex s"
  let ?s = "\<lparr>lines = lines s, nextIndex = Suc (nextIndex s)\<rparr>"
  show ?case
  proof (cases "nextIndex s < k")
    case False
    with "1.prems"(2) have at: "nextIndex s = k" by simp
    have "osLevelLoop results s = Inr (results, s)"
      using at "1.prems"(5)
      by (cases "nextIndex s < length (lines s)") (auto simp: osLevelLoop_end osLevelLoop_section)
    moreover have "osLevelLoop results ?t = Inr (results, ?t)"
      using at "1.prems"(6)
      by (cases "nextIndex ?t < length (lines ?t)") (auto simp: osLevelLoop_end osLevelLoop_section)
    ultimately show ?thesis by simp
  next
    case lt: True
    with "1.prems"(3,4) have more: "nextIndex s < length (lines s)"
      and more': "nextIndex ?t < length (lines ?t)" by simp_all
    have line: "lines ?t ! nextIndex ?t = ?l"
      using lt "1.prems"(1) by (simp, metis nth_take)
    show ?thesis
    proof (cases "prefix ''=='' ?l")
      case True
      with more more' line show ?thesis by (simp add: osLevelLoop_section)
    next
      case ne: False
      then have ne': "\<not> prefix ''=='' (lines ?t ! nextIndex ?t)" using line by simp
      show ?thesis
      proof (cases "prefix ''--'' ?l")
        case False
        with line show ?thesis
          by (simp add: osLevelLoop_step [OF more ne] osLevelLoop_step [OF more' ne'])
      next
        case dash: True
        have pre: "take k ls' = take k (lines ?s)" "nextIndex ?s \<le> k" "k \<le> length (lines ?s)"
          "k \<le> length ls'" "k = length (lines ?s) \<or> isHeader (lines ?s ! k)"
          "k = length ls' \<or> isHeader (ls' ! k)"
          using "1.prems" lt by (auto simp: isHeader_iff)
            note inner = entriesLoop_agree [OF pre, of "oslevel_of ?l" results]
        show ?thesis
        proof (cases "entriesLoop (oslevel_of ?l) results ?s")
          case (Inl e)
          with inner dash line show ?thesis
            by (simp add: osLevelLoop_step [OF more ne] osLevelLoop_step [OF more' ne'])
        next
          case (Inr p)
          obtain r2 s2 where p: "p = (r2, s2)" by (cases p)
          have hm: "hasMore s" using more by (simp add: hasMore_def)
          have pk: "peekIsDoubleEquals s = Inr False"
            using more ne by (simp add: peekIsDoubleEquals_more)
          have nv: "nextValueAsOSLevel s = Inr (oslevel_of ?l, ?s)"
            using more dash by (simp add: nextValueAsOSLevel_more)
          from Inr p have en: "entriesLoop (oslevel_of ?l) results ?s = Inr (r2, s2)" by simp
          from entriesLoop_returns [OF en] have l2: "lines s2 = lines s" by simp
          from entriesLoop_bounded [OF en pre(2,3,5)] have b2: "nextIndex s2 \<le> k" .
          have pre2: "take k ls' = take k (lines s2)" "nextIndex s2 \<le> k" "k \<le> length (lines s2)"
            "k \<le> length ls'" "k = length (lines s2) \<or> prefix ''=='' (lines s2 ! k)"
            "k = length ls' \<or> prefix ''=='' (ls' ! k)"
            using "1.prems" l2 b2 by simp_all
          from "1.IH" [OF hm pk _ nv refl en refl pre2]
          have ih: "osLevelLoop r2 \<lparr>lines = ls', nextIndex = nextIndex s2\<rparr> =
             (case osLevelLoop r2 s2 of Inl e \<Rightarrow> Inl e
              | Inr (results', s') \<Rightarrow> Inr (results', \<lparr>lines = ls', nextIndex = nextIndex s'\<rparr>))"
            by simp
          from inner en dash line ih show ?thesis
            by (simp add: osLevelLoop_step [OF more ne] osLevelLoop_step [OF more' ne'])
        qed
      qed
    qed
  qed
qed

text \<open>The loops on a listing that follows the grammar.\<close>

lemma entries_block:
  assumes "drop i ls = es @ post" and "list_all good_entry es"
    and "post = [] \<or> isHeader (hd post)"
  shows "entriesLoop oslevel results \<lparr>lines = ls, nextIndex = i\<rparr> =
     Inr (results @ map (device_of oslevel) (filter (\<lambda>l. \<not> sublist ''unavailable'' l) es),
          \<lparr>lines = ls, nextIndex = i + length es\<rparr>)"
  using assms(1,2)
proof (induction es arbitrary: i results)
  case Nil
  have "\<not> peekHasNextLineEntry \<lparr>lines = ls, nextIndex = i\<rparr>"
  proof (cases post)
    case Nil
    with Nil.prems(1) show ?thesis by (simp add: peekHasNextLineEntry_iff)
  next
    case (Cons h p)
    with Nil.prems(1) have "drop i ls = h # p" by simp
    from drop_Cons_nth(2) [OF this] Cons assms(3) show ?thesis
      by (simp add: peekHasNextLineEntry_iff)
  qed
  then show ?case by (simp add: entriesLoop_stop)
next
  case (Cons e es)
  from Cons.prems(1) have d: "drop i ls = e # (es @ post)" by simp
  note at = drop_Cons_nth [OF d]
  from Cons.prems(2) have ge: "good_entry e" and rest: "list_all good_entry es" by simp_all
  from ge at have step: "peekHasNextLineEntry \<lparr>lines = ls, nextIndex = i\<rparr>"
    by (simp add: peekHasNextLineEntry_iff good_entry_def)
  note ih = Cons.IH [OF at(3) rest]
  show ?case
  proof (cases "sublist ''unavailable'' e")
    case True
    then have "indexOf e ''unavailable'' 0 \<noteq> - 1" by (simp add: indexOf_none_iff)
    with True at ih [of results] show ?thesis
      by (simp add: entriesLoop_step [OF step])
  next
    case False
    then have u: "indexOf e ''unavailable'' 0 = - 1" by (simp add: indexOf_none_iff)
    from False ge have "createDevice oslevel e = Inr (device_of oslevel e)"
      by (simp add: good_entry_def createDevice_accepts)
    with False u at ih [of "results @ [device_of oslevel e]"] show ?thesis
      by (simp add: entriesLoop_step [OF step])
  qed
qed

lemma entries_block_fails:
  assumes "drop i ls = es @ bad # post" and "list_all good_entry es"
    and "\<not> isHeader bad" and "\<not> sublist ''unavailable'' bad"
    and "createDevice oslevel bad = Inl e"
  shows "entriesLoop oslevel results \<lparr>lines = ls, nextIndex = i\<rparr> = Inl e"
  using assms(1,2)
proof (induction es arbitrary: i results)
  case Nil
  then have d: "drop i ls = bad # post" by simp
  note at = drop_Cons_nth [OF d]
  from at assms(3) have step: "peekHasNextLineEntry \<lparr>lines = ls, nextIndex = i\<rparr>"
    by (simp add: peekHasNextLineEntry_iff)
  from assms(4) have "indexOf bad ''unavailable'' 0 = - 1" by (simp add: indexOf_none_iff)
  with at assms(5) show ?case by (simp add: entriesLoop_step [OF step])
next
  case (Cons e es)
  from Cons.prems(1) have d: "drop i ls = e # (es @ bad # post)" by simp
  note at = drop_Cons_nth [OF d]
  from Cons.prems(2) have ge: "good_entry e" and rest: "list_all good_entry es" by simp_all
  from ge at have step: "peekHasNextLineEntry \<lparr>lines = ls, nextIndex = i\<rparr>"
    by (simp add: peekHasNextLineEntry_iff good_entry_def)
  note ih = Cons.IH [OF at(3) rest]
  show ?case
  proof (cases "sublist ''unavailable'' e")
    case True
    then have "indexOf e ''unavailable'' 0 \<noteq> - 1" by (simp add: indexOf_none_iff)
    with True at ih [of results] show ?thesis
      by (simp add: entriesLoop_step [OF step])
  next
    case False
    then have u: "indexOf e ''unavailable'' 0 = - 1" by (simp add: indexOf_none_iff)
    from False ge have "createDevice oslevel e = Inr (device_of oslevel e)"
      by (simp add: good_entry_def createDevice_accepts)
    with False u at ih [of "results @ [device_of oslevel e]"] show ?thesis
      by (simp add: entriesLoop_step [OF step])
  qed
qed

lemma osLevelLoop_groups:
  assumes "drop i ls = concat (map group_lines groups) @ post"
    and "list_all good_group groups"
    and "post = [] \<or> isHeader (hd post)"
  shows "osLevelLoop results \<lparr>lines = ls, nextIndex = i\<rparr> =
     osLevelLoop (results @ concat (map group_devices groups))
       \<lparr>lines = ls, nextIndex = i + length (concat (map group_lines groups))\<rparr>"
  using assms(1,2)
proof (induction groups arbitrary: i results)
  case Nil
  show ?case by simp
next
  case (Cons g gs)
  obtain h es where g: "g = (h, es)" by (cases g)
  let ?rest = "concat (map group_lines gs) @ post"
  have gl: "group_lines g = h # es" by (simp add: g group_lines_def)
  from Cons.prems(1) have d: "drop i ls = h # (es @ ?rest)"
    by (simp add: gl)
  note at = drop_Cons_nth [OF d]
  from Cons.prems(2) have gg: "good_group g" and gs: "list_all good_group gs"
    by simp_all
  from gg g have dash: "prefix ''--'' h" and es: "list_all good_entry es"
    by (simp_all add: good_group_def)
  have stop: "?rest = [] \<or> isHeader (hd ?rest)"
  proof (cases gs)
    case Nil
    with assms(3) show ?thesis by simp
  next
    case (Cons g' gs')
    with gs have "prefix ''--'' (fst g')" by (simp add: good_group_def)
    with Cons show ?thesis by (simp add: group_lines_def isHeader_iff)
  qed
  have more: "nextIndex \<lparr>lines = ls, nextIndex = i\<rparr> < length (lines \<lparr>lines = ls, nextIndex = i\<rparr>)"
    using at(1) by simp
  have ne: "\<not> prefix ''=='' (lines \<lparr>lines = ls, nextIndex = i\<rparr> ! nextIndex \<lparr>lines = ls, nextIndex = i\<rparr>)"
    using at(2) dash by (simp add: dash_not_section)
  have inner: "entriesLoop (oslevel_of h) results \<lparr>lines = ls, nextIndex = Suc i\<rparr> =
     Inr (results @ group_devices g, \<lparr>lines = ls, nextIndex = Suc i + length es\<rparr>)"
    using entries_block [OF at(3) es stop, of "oslevel_of h" results] g
    by (simp add: group_devices_def)
  have "osLevelLoop results \<lparr>lines = ls, nextIndex = i\<rparr> =
      osLevelLoop (results @ group_devices g) \<lparr>lines = ls, nextIndex = Suc i + length es\<rparr>"
    using at(2) dash inner by (simp add: osLevelLoop_step [OF more ne])
  also have "drop (Suc i + length es) ls = ?rest"
    using at(3) by (metis append_eq_conv_conj drop_drop add.commute)
  from Cons.IH [OF this gs, of "results @ group_devices g"]
  have "osLevelLoop (results @ group_devices g) \<lparr>lines = ls, nextIndex = Suc i + length es\<rparr> =
      osLevelLoop (results @ concat (map group_devices (g # gs)))
       \<lparr>lines = ls, nextIndex = i + length (concat (map group_lines (g # gs)))\<rparr>"
    by (simp add: gl add.assoc)
  finally show ?case .
qed

lemma osLevelLoop_section_end:
  assumes "drop i ls = post" and "post = [] \<or> prefix ''=='' (hd post)"
  shows "osLevelLoop results \<lparr>lines = ls, nextIndex = i\<rparr> =
     Inr (results, \<lparr>lines = ls, nextIndex = i\<rparr>)"
proof (cases post)
  case Nil
  with assms(1) show ?thesis by (simp add: osLevelLoop_end)
next
  case (Cons h p)
  with assms(1) have "drop i ls = h # p" by simp
  from drop_Cons_nth(1,2) [OF this] Cons assms(2) show ?thesis
    by (simp add: osLevelLoop_section)
qed

lemma advanceTillMatch_skips:
  assumes "drop i ls = junk @ m # rest"
    and "list_all (\<lambda>l. \<not> prefix pat l) junk" and "prefix pat m"
  shows "advanceTillMatch pat \<lparr>lines = ls, nextIndex = i\<rparr> =
     Inr \<lparr>lines = ls, nextIndex = Suc (i + length junk)\<rparr>"
  using assms(1,2)
proof (induction junk arbitrary: i)
  case Nil
  then have d: "drop i ls = m # rest" by simp
  note at = drop_Cons_nth [OF d]
  from at assms(3) show ?case
    by (subst advanceTillMatch.simps)
       (simp add: stream_next_def hasMore_def slice_prefix_iff)
next
  case (Cons l junk)
  from Cons.prems(1) have d: "drop i ls = l # (junk @ m # rest)" by simp
  note at = drop_Cons_nth [OF d]
  from Cons.prems(2) have nl: "\<not> prefix pat l" and rest: "list_all (\<lambda>l. \<not> prefix pat l) junk"
    by simp_all
  from at nl Cons.IH [OF at(3) rest] show ?case
    by (subst advanceTillMatch.simps)
       (simp add: stream_next_def hasMore_def slice_prefix_iff)
qed

lemma advanceTillMatch_lines:
  "advanceTillMatch pat s = Inr s' \<Longrightarrow> lines s' = lines s"
proof (induction pat s rule: advanceTillMatch.induct)
  case (1 line s)
  show ?case
  proof (cases "hasMore s")
    case False
    with "1.prems" show ?thesis
      by (subst (asm) advanceTillMatch.simps) (simp add: stream_next_def)
  next
    case True
    then have nx: "stream_next s = (Some (lines s ! nextIndex s), s\<lparr>nextIndex := nextIndex s + 1\<rparr>)"
      by (simp add: stream_next_def)
    show ?thesis
    proof (cases "slice (lines s ! nextIndex s) 0 (int (length line)) \<noteq> line")
      case False
      with "1.prems" nx show ?thesis
        by (subst (asm) advanceTillMatch.simps) auto
    next
      case ne: True
      with "1.prems" nx have "advanceTillMatch line (s\<lparr>nextIndex := nextIndex s + 1\<rparr>) = Inr s'"
        by (subst (asm) advanceTillMatch.simps) simp
      from "1.IH" [OF nx [symmetric] refl ne this] show ?thesis by simp
    qed
  qed
qed

lemma parse_reaches_section:
  assumes "ls = junk1 @ dt # junk2 @ dv # rest"
    and "list_all (\<lambda>l. \<not> prefix ''== Device Types =='' l) junk1"
    and "prefix ''== Device Types =='' dt"
    and "list_all (\<lambda>l. \<not> prefix ''== Devices =='' l) junk2"
    and "prefix ''== Devices =='' dv"
  shows "getSimulatedDevicesFromLines ls =
     (case osLevelLoop [] \<lparr>lines = ls, nextIndex = length junk1 + length junk2 + 2\<rparr> of
        Inl e \<Rightarrow> Inl e | Inr (results, s3) \<Rightarrow> Inr results)"
    and "drop (length junk1 + length junk2 + 2) ls = rest"
proof -
  have d0: "drop 0 ls = junk1 @ dt # (junk2 @ dv # rest)" using assms(1) by simp
  from advanceTillMatch_skips [OF d0 assms(2,3)]
  have a1: "advanceTillMatch ''== Device Types =='' (makeSimctlStream ls) =
      Inr \<lparr>lines = ls, nextIndex = Suc (length junk1)\<rparr>"
    by (simp add: makeSimctlStream_def)
  have d1: "drop (Suc (length junk1)) ls = junk2 @ dv # rest" using assms(1) by simp
  from advanceTillMatch_skips [OF d1 assms(4,5)]
  have a2: "advanceTillMatch ''== Devices =='' \<lparr>lines = ls, nextIndex = Suc (length junk1)\<rparr> =
      Inr \<lparr>lines = ls, nextIndex = length junk1 + length junk2 + 2\<rparr>"
    by simp
  show "getSimulatedDevicesFromLines ls =
     (case osLevelLoop [] \<lparr>lines = ls, nextIndex = length junk1 + length junk2 + 2\<rparr> of
        Inl e \<Rightarrow> Inl e | Inr (results, s3) \<Rightarrow> Inr results)"
    by (simp add: getSimulatedDevicesFromLines_def a1 a2 getOSLevelEntries_def)
  have "ls = (junk1 @ dt # junk2 @ [dv]) @ rest" using assms(1) by simp
  then have "drop (length (junk1 @ dt # junk2 @ [dv])) ls = rest"
    by (metis append_eq_conv_conj)
  then show "drop (length junk1 + length junk2 + 2) ls = rest" by simp
qed

text \<open>Where the devices of a normal return come from.\<close>

lemma entriesLoop_devices:
  assumes "entriesLoop oslevel results s = Inr (results', s')"
  shows "\<exists>new. results' = results @ new \<and>
     (\<forall>d\<in>set new. \<exists>l\<in>set (lines s). \<not> sublist ''unavailable'' l \<and>
                      createDevice oslevel l = Inr d)"
  using assms
proof (induction oslevel results s rule: entriesLoop.induct)
  case (1 oslevel results s)
  show ?case
  proof (cases "peekHasNextLineEntry s")
    case False
    with "1.prems" show ?thesis by (simp add: entriesLoop_stop)
  next
    case True
    let ?l = "lines s ! nextIndex s"
    let ?s = "\<lparr>lines = lines s, nextIndex = Suc (nextIndex s)\<rparr>"
    from True have more: "nextIndex s < length (lines s)"
      by (simp add: peekHasNextLineEntry_iff)
    note nv = nextValue_more [OF more]
    show ?thesis
    proof (cases "indexOf ?l ''unavailable'' 0 = - 1")
      case skip: False
      from "1.prems" True skip have "entriesLoop oslevel results ?s = Inr (results', s')"
        by (simp add: entriesLoop_step)
      from "1.IH"(2) [OF True nv refl skip this] show ?thesis by simp
    next
      case keep: True
      from "1.prems" True keep obtain d where d: "createDevice oslevel ?l = Inr d"
        and rec: "entriesLoop oslevel (results @ [d]) ?s = Inr (results', s')"
        by (auto simp: entriesLoop_step split: sum.splits)
      from "1.IH"(1) [OF True nv refl keep d rec] obtain new where
        new: "results' = (results @ [d]) @ new"
          "\<forall>d\<in>set new. \<exists>l\<in>set (lines s). \<not> sublist ''unavailable'' l \<and>
                      createDevice oslevel l = Inr d"
        by auto
      have "?l \<in> set (lines s)" using more by simp
      moreover have "\<not> sublist ''unavailable'' ?l" using keep by (simp add: indexOf_none_iff)
      ultimately have "\<forall>d'\<in>set (d # new). \<exists>l\<in>set (lines s). \<not> sublist ''unavailable'' l \<and>
                      createDevice oslevel l = Inr d'"
        using d new(2) by auto
      with new(1) show ?thesis by (intro exI [of _ "d # new"]) simp
    qed
  qed
qed

lemma osLevelLoop_devices:
  assumes "osLevelLoop results s = Inr (results', s')"
  shows "\<exists>new. results' = results @ new \<and>
     (\<forall>d\<in>set new. \<exists>l\<in>set (lines s). \<not> sublist ''unavailable'' l \<and>
                      (\<exists>oslevel. createDevice oslevel l = Inr d))"
  using assms
proof (induction results s rule: osLevelLoop.induct)
  case (1 results s)
  let ?l = "lines s ! nextIndex s"
  let ?s = "\<lparr>lines = lines s, nextIndex = Suc (nextIndex s)\<rparr>"
  show ?case
  proof (cases "nextIndex s < length (lines s)")
    case False
    with "1.prems" show ?thesis by (simp add: osLevelLoop_end)
  next
    case more: True
    show ?thesis
    proof (cases "prefix ''=='' ?l")
      case True
      with more "1.prems" show ?thesis by (simp add: osLevelLoop_section)
    next
      case ne: False
      from "1.prems" more ne have dash: "prefix ''--'' ?l"
        by (simp add: osLevelLoop_step split: if_splits)
      from "1.prems" more ne dash obtain r2 s2 where
        inner: "entriesLoop (oslevel_of ?l) results ?s = Inr (r2, s2)"
        and rec: "osLevelLoop r2 s2 = Inr (results', s')"
        by (auto simp: osLevelLoop_step split: sum.splits)
      have hm: "hasMore s" using more by (simp add: hasMore_def)
      have pk: "peekIsDoubleEquals s = Inr False"
        using more ne by (simp add: peekIsDoubleEquals_more)
      have nv: "nextValueAsOSLevel s = Inr (oslevel_of ?l, ?s)"
        using more dash by (simp add: nextValueAsOSLevel_more)
      from entriesLoop_returns [OF inner] have l2: "lines s2 = lines s" by simp
      from "1.IH" [OF hm pk _ nv refl inner refl rec] l2 obtain new2 where
        new2: "results' = r2 @ new2"
          "\<forall>d\<in>set new2. \<exists>l\<in>set (lines s). \<not> sublist ''unavailable'' l \<and>
                      (\<exists>oslevel. createDevice oslevel l = Inr d)"
        by auto
      from entriesLoop_devices [OF inner] obtain new1 where
        new1: "r2 = results @ new1"
          "\<forall>d\<in>set new1. \<exists>l\<in>set (lines s). \<not> sublist ''unavailable'' l \<and>
                      createDevice (oslevel_of ?l) l = Inr d"
        by auto
      from new1(2) new2(2)
      have "\<forall>d\<in>set (new1 @ new2). \<exists>l\<in>set (lines s). \<not> sublist ''unavailable'' l \<and>
                      (\<exists>oslevel. createDevice oslevel l = Inr d)"
        by (simp only: set_append Un_iff) blast
      with new1(1) new2(1) show ?thesis by (intro exI [of _ "new1 @ new2"]) simp
    qed
  qed
qed

lemma parse_devices:
  assumes "getSimulatedDevicesFromLines ls = Inr devs" and "d \<in> set devs"
  shows "\<exists>l\<in>set ls. \<not> sublist ''unavailable'' l \<and> (\<exists>oslevel. createDevice oslevel l = Inr d)"
proof -
  from assms(1) obtain s1 s2 s3 where
    a1: "advanceTillMatch ''== Device Types =='' (makeSimctlStream ls) = Inr s1"
    and a2: "advanceTillMatch ''== Devices =='' s1 = Inr s2"
    and run: "osLevelLoop [] s2 = Inr (devs, s3)"
    by (auto simp: getSimulatedDevicesFromLines_def getOSLevelEntries_def split: sum.splits)
  from advanceTillMatch_lines [OF a1] advanceTillMatch_lines [OF a2]
  have "lines s2 = ls" by (simp add: makeSimctlStream_def)
  with osLevelLoop_devices [OF run] assms(2) show ?thesis by auto
qed

section \<open>The worked example of the listing grammar\<close>

text \<open>
  Claim C1, as amended. The listing of the example, below a \<open>== Device Types ==\<close>
  header, parses to exactly one device with tag \<open>ios-simulator,OS=9.1,name=iPhone 4s\<close>
  and identifier \<open>05686243-BA24-44CE-94D9-D6823BF96E46\<close> when no empty line follows
  the device entry inside the section: either the text stops without a final line feed, or
  another \<open>==\<close> header closes the section before the final line feed.
\<close>

theorem example_listing_parses:
  "getSimulatedDevices (''== Device Types ==\<newline>'' @ butlast example_listing) =
     Inr [\<lparr> tag = ''ios-simulator,OS=9.1,name=iPhone 4s'',
            platform = ''ios'',
            identifier' = ''05686243-BA24-44CE-94D9-D6823BF96E46'',
            name = ''ios-simulator iPhone 4s (9.1)'',
            OS = ''iOS 9.1'',
            simulator = True,
            destination = ''OS=9.1,name=iPhone 4s'' \<rparr>] \<and>
   getSimulatedDevices
       (''== Device Types ==\<newline>'' @ example_listing @ ''== Device Pairs ==\<newline>'') =
     Inr [\<lparr> tag = ''ios-simulator,OS=9.1,name=iPhone 4s'',
            platform = ''ios'',
            identifier' = ''05686243-BA24-44CE-94D9-D6823BF96E46'',
            name = ''ios-simulator iPhone 4s (9.1)'',
            OS = ''iOS 9.1'',
            simulator = True,
            destination = ''OS=9.1,name=iPhone 4s'' \<rparr>]"
  by code_simp

text \<open>
  With the final line feed directly after the device entry, splitting the text leaves an
  empty last line; it is no header, so it is read as a device entry, and \<open>createDevice\<close>
  raises because it has no opening parenthesis.
\<close>

theorem trailing_empty_line_counterexample:
  "getSimulatedDevices (''== Device Types ==\<newline>'' @ example_listing) =
     Inl (Error ''createDevice: could not find open paren in: iOS 9.1:'')"
  by code_simp

section \<open>The fields of a constructed device\<close>

text \<open>
  Claim C2. At the input that the documentation of \<open>createDevice\<close> itself uses, the
  label \<open>iOS 9.1\<close> and the entry line of the iPhone 4s, the function returns the
  platform, the tag, the simulator flag and the destination as stated, but the name
  \<open>ios-simulator iPhone 4s (9.1)\<close>: the parentheses hold the version and not the OS
  level label \<open>iOS 9.1\<close>, and the documentation of the function gives the name as
  \<open>ios-simulator iPhone 4s\<close>, without parentheses.
\<close>

theorem createDevice_at_documented_example:
  "createDevice ''iOS 9.1'' ''iPhone 4s (05686243-BA24-44CE-94D9-D6823BF96E46) (Shutdown)'' =
     Inr \<lparr> tag = ''ios-simulator,OS=9.1,name=iPhone 4s'',
           platform = ''ios'',
           identifier' = ''05686243-BA24-44CE-94D9-D6823BF96E46'',
           name = ''ios-simulator iPhone 4s (9.1)'',
           OS = ''iOS 9.1'',
           simulator = True,
           destination = ''OS=9.1,name=iPhone 4s'' \<rparr> \<and>
   ''ios-simulator iPhone 4s (9.1)'' \<noteq> ''ios-simulator iPhone 4s (iOS 9.1)'' \<and>
   ''ios-simulator iPhone 4s (9.1)'' \<noteq> ''ios-simulator iPhone 4s''"
  by code_simp

section \<open>Lines marked unavailable\<close>

text \<open>
  Claim C4. On a listing that follows the grammar (anything before the
  \<open>== Device Types ==\<close> header, anything between it and the \<open>== Devices ==\<close>
  header, then groups of good entry lines, then the end or another \<open>==\<close> header) the
  parser returns exactly the devices of the entry lines without \<open>unavailable\<close>, in
  order: an entry line containing \<open>unavailable\<close> is skipped without an error,
  whatever else it contains. And for every listing at all, each device of a successful parse
  was built from a line of the listing that does not contain \<open>unavailable\<close>.
\<close>

theorem unavailable_lines_never_yield:
  "(ls = junk1 @ dt # junk2 @ dv # concat (map group_lines groups) @ post \<and>
    list_all (\<lambda>l. \<not> prefix ''== Device Types =='' l) junk1 \<and>
    prefix ''== Device Types =='' dt \<and>
    list_all (\<lambda>l. \<not> prefix ''== Devices =='' l) junk2 \<and>
    prefix ''== Devices =='' dv \<and>
    list_all good_group groups \<and>
    (post = [] \<or> prefix ''=='' (hd post))
    \<longrightarrow> getSimulatedDevicesFromLines ls = Inr (concat (map group_devices groups))) \<and>
   (getSimulatedDevicesFromLines ls' = Inr devs \<longrightarrow>
      (\<forall>d\<in>set devs. \<exists>l\<in>set ls'. \<not> sublist ''unavailable'' l \<and>
         (\<exists>oslevel. createDevice oslevel l = Inr d)))"
proof (intro conjI impI)
  assume a: "ls = junk1 @ dt # junk2 @ dv # concat (map group_lines groups) @ post \<and>
    list_all (\<lambda>l. \<not> prefix ''== Device Types =='' l) junk1 \<and>
    prefix ''== Device Types =='' dt \<and>
    list_all (\<lambda>l. \<not> prefix ''== Devices =='' l) junk2 \<and>
    prefix ''== Devices =='' dv \<and>
    list_all good_group groups \<and>
    (post = [] \<or> prefix ''=='' (hd post))"
  then have shape: "ls = junk1 @ dt # junk2 @ dv # concat (map group_lines groups) @ post"
    and j1: "list_all (\<lambda>l. \<not> prefix ''== Device Types =='' l) junk1"
    and dt: "prefix ''== Device Types =='' dt"
    and j2: "list_all (\<lambda>l. \<not> prefix ''== Devices =='' l) junk2"
    and dv: "prefix ''== Devices =='' dv"
    and groups: "list_all good_group groups"
    and post: "post = [] \<or> prefix ''=='' (hd post)"
    by blast+
  let ?i = "length junk1 + length junk2 + 2"
  note top = parse_reaches_section [OF shape j1 dt j2 dv]
  have hdr: "post = [] \<or> isHeader (hd post)"
    using post by (auto simp: isHeader_iff)
  have "drop (?i + length (concat (map group_lines groups))) ls = post"
    using top(2) by (metis append_eq_conv_conj drop_drop add.commute)
  from osLevelLoop_section_end [OF this post] osLevelLoop_groups [OF top(2) groups hdr, of "[]"]
  have "osLevelLoop [] \<lparr>lines = ls, nextIndex = ?i\<rparr> =
      Inr (concat (map group_devices groups),
           \<lparr>lines = ls, nextIndex = ?i + length (concat (map group_lines groups))\<rparr>)"
    by simp
  with top(1) show "getSimulatedDevicesFromLines ls = Inr (concat (map group_devices groups))"
    by simp
next
  assume "getSimulatedDevicesFromLines ls' = Inr devs"
  then show "\<forall>d\<in>set devs. \<exists>l\<in>set ls'. \<not> sublist ''unavailable'' l \<and>
         (\<exists>oslevel. createDevice oslevel l = Inr d)"
    using parse_devices by blast
qed

theorem unavailable_lines_never_yield_witness:
  "getSimulatedDevicesFromLines simctl_lines = Inr [discovered_iphone] \<and>
   (\<exists>l\<in>set simctl_lines. \<not> sublist ''unavailable'' l \<and>
      (\<exists>oslevel. createDevice oslevel l = Inr discovered_iphone))"
proof -
  let ?junk2 = "[''iPhone 4s (com.apple.CoreSimulator.SimDeviceType.iPhone-4s)'',
      ''== Runtimes =='',
      ''iOS 9.1 (9.1 - 13B137) (com.apple.CoreSimulator.SimRuntime.iOS-9-1)'']"
  let ?groups = "[(''-- iOS 9.1 --'',
      [''iPhone 4s (05686243-BA24-44CE-94D9-D6823BF96E46) (Shutdown)'',
       ''iPhone 5 (unavailable, runtime profile not found''])]"
  let ?post = "[''== Device Pairs =='',
      ''Watch (1B2C3D4E-AAAA-BBBB-CCCC-0123456789AB) (Shutdown)'']"
  have 1: "simctl_lines = [] @ ''== Device Types =='' # ?junk2 @ ''== Devices =='' #
      concat (map group_lines ?groups) @ ?post"
    by (simp add: simctl_lines_def group_lines_def)
  have 2: "list_all (\<lambda>l. \<not> prefix ''== Device Types =='' l) []" by simp
  have 3: "prefix ''== Device Types =='' ''== Device Types ==''" by simp
  have 4: "list_all (\<lambda>l. \<not> prefix ''== Devices =='' l) ?junk2" by simp
  have 5: "prefix ''== Devices =='' ''== Devices ==''" by simp
  have 6: "list_all good_group ?groups" by code_simp
  have 7: "?post = [] \<or> prefix ''=='' (hd ?post)" by simp
  have 8: "concat (map group_devices ?groups) = [discovered_iphone]" by code_simp
  note inst = unavailable_lines_never_yield
    [of simctl_lines "[]" "''== Device Types ==''" ?junk2 "''== Devices ==''" ?groups ?post
        simctl_lines "[discovered_iphone]"]
  from inst 1 2 3 4 5 6 7 have parse: "getSimulatedDevicesFromLines simctl_lines =
      Inr (concat (map group_devices ?groups))"
    by blast
  then have parse': "getSimulatedDevicesFromLines simctl_lines = Inr [discovered_iphone]"
    unfolding 8 .
  with inst have "\<forall>d\<in>set [discovered_iphone]. \<exists>l\<in>set simctl_lines.
      \<not> sublist ''unavailable'' l \<and> (\<exists>oslevel. createDevice oslevel l = Inr d)"
    by blast
  with parse' show ?thesis by simp
qed

section \<open>Malformed entry lines\<close>

text \<open>
  Claim C5. Let a listing follow the grammar up to a kept entry line, that is, one that does
  not contain \<open>unavailable\<close>, which lacks its opening or closing parenthesis or whose
  identifier is shorter than 10 characters. Then parsing fails, whatever follows that line,
  and the message of the error ends with the OS level label, a colon and the offending line;
  no device is returned. \<open>createDevice\<close> itself rejects such a line under every label.
\<close>

theorem malformed_entry_fails:
  assumes "ls = junk1 @ dt # junk2 @ dv # concat (map group_lines groups) @ h # es @ bad # post"
    and "list_all (\<lambda>l. \<not> prefix ''== Device Types =='' l) junk1"
    and "prefix ''== Device Types =='' dt"
    and "list_all (\<lambda>l. \<not> prefix ''== Devices =='' l) junk2"
    and "prefix ''== Devices =='' dv"
    and "list_all good_group groups" and "good_group (h, es)"
    and "\<not> isHeader bad" and "\<not> sublist ''unavailable'' bad"
    and "CHR ''('' \<notin> set bad \<or> CHR '')'' \<notin> set bad \<or> length (extracted_identifier bad) < 10"
  shows "(\<exists>p. getSimulatedDevicesFromLines ls = Inl (Error (p @ oslevel_of h @ '':'' @ bad))) \<and>
         (\<forall>oslevel. \<exists>p. createDevice oslevel bad = Inl (Error (p @ oslevel @ '':'' @ bad)))"
proof -
  let ?i = "length junk1 + length junk2 + 2"
  define k where "k = ?i + length (concat (map group_lines groups))"
  let ?devs = "concat (map group_devices groups)"
  from assms(10) have nwf: "\<not> well_formed_entry bad"
    by (auto simp: well_formed_entry_def)
  from assms(1) have shape: "ls = junk1 @ dt # junk2 @ dv # (concat (map group_lines groups) @ h # es @ bad # post)"
    by simp
  note top = parse_reaches_section [OF shape assms(2-5)]
  from assms(7) have dash: "prefix ''--'' h" and es: "list_all good_entry es"
    by (simp_all add: good_group_def)
  have hdr: "h # es @ bad # post = [] \<or> isHeader (hd (h # es @ bad # post))"
    using dash by (simp add: isHeader_iff)
  have dk: "drop k ls = h # (es @ bad # post)"
    unfolding k_def using top(2) by (metis append_eq_conv_conj drop_drop add.commute)
  note at = drop_Cons_nth [OF dk]
  obtain p where rej: "createDevice (oslevel_of h) bad = Inl (Error (p @ oslevel_of h @ '':'' @ bad))"
    using createDevice_rejects [OF nwf] by blast
  have more: "nextIndex \<lparr>lines = ls, nextIndex = k\<rparr> < length (lines \<lparr>lines = ls, nextIndex = k\<rparr>)"
    using at(1) by simp
  have ne: "\<not> prefix ''=='' (lines \<lparr>lines = ls, nextIndex = k\<rparr> ! nextIndex \<lparr>lines = ls, nextIndex = k\<rparr>)"
    using at(2) dash by (simp add: dash_not_section)
  have inner: "entriesLoop (oslevel_of h) ?devs \<lparr>lines = ls, nextIndex = Suc k\<rparr> =
      Inl (Error (p @ oslevel_of h @ '':'' @ bad))"
    by (rule entries_block_fails [OF at(3) es assms(8,9) rej])
  have "osLevelLoop ?devs \<lparr>lines = ls, nextIndex = k\<rparr> = Inl (Error (p @ oslevel_of h @ '':'' @ bad))"
    using at(2) dash inner by (simp add: osLevelLoop_step [OF more ne])
  with osLevelLoop_groups [OF top(2) assms(6) hdr, of "[]"]
  have "osLevelLoop [] \<lparr>lines = ls, nextIndex = ?i\<rparr> = Inl (Error (p @ oslevel_of h @ '':'' @ bad))"
    by (simp add: k_def)
  with top(1) have "getSimulatedDevicesFromLines ls = Inl (Error (p @ oslevel_of h @ '':'' @ bad))"
    by simp
  with createDevice_rejects [OF nwf] show ?thesis by blast
qed

theorem malformed_entry_fails_witness:
  "\<exists>p. getSimulatedDevicesFromLines broken_lines =
     Inl (Error (p @ ''iOS 9.1:iPhone 5 (Shutdown''))"
proof -
  let ?es = "[''iPhone 4s (05686243-BA24-44CE-94D9-D6823BF96E46) (Shutdown)'']"
  let ?post = "[''iPhone 6 (0A1B2C3D-AAAA-BBBB-CCCC-0123456789AB) (Shutdown)'']"
  have 1: "broken_lines = [] @ ''== Device Types =='' # [] @ ''== Devices =='' #
      concat (map group_lines []) @ ''-- iOS 9.1 --'' # ?es @ ''iPhone 5 (Shutdown'' # ?post"
    by (simp add: broken_lines_def)
  have 2: "list_all (\<lambda>l. \<not> prefix ''== Device Types =='' l) []" by simp
  have 3: "prefix ''== Device Types =='' ''== Device Types ==''" by simp
  have 4: "list_all (\<lambda>l. \<not> prefix ''== Devices =='' l) []" by simp
  have 5: "prefix ''== Devices =='' ''== Devices ==''" by simp
  have 6: "list_all good_group []" by simp
  have 7: "good_group (''-- iOS 9.1 --'', ?es)" by code_simp
  have 8: "\<not> isHeader ''iPhone 5 (Shutdown''" by code_simp
  have 9: "\<not> sublist ''unavailable'' ''iPhone 5 (Shutdown''" by code_simp
  have 10: "CHR ''('' \<notin> set ''iPhone 5 (Shutdown'' \<or> CHR '')'' \<notin> set ''iPhone 5 (Shutdown'' \<or>
      length (extracted_identifier ''iPhone 5 (Shutdown'') < 10"
    by simp
  have 11: "oslevel_of ''-- iOS 9.1 --'' = ''iOS 9.1''" by code_simp
  from malformed_entry_fails [OF 1 2 3 4 5 6 7 8 9 10] show ?thesis
    unfolding 11 by simp
qed

section \<open>OS level headers\<close>

text \<open>
  Claim C6. An OS level header that starts with \<open>--\<close> but has no second \<open>--\<close> is
  not rejected: \<open>indexOf\<close> answers \<open>-1\<close>, which \<open>slice\<close> takes as "one before
  the end", so the label silently loses its last character, and the devices below it carry the
  cut version. For the header \<open>-- iOS 9.1\<close> the label is \<open>iOS 9.\<close>.
\<close>

theorem unterminated_oslevel_header:
  "nextValueAsOSLevel (makeSimctlStream [''-- iOS 9.1'']) =
     Inr (''iOS 9.'', \<lparr> lines = [''-- iOS 9.1''], nextIndex = 1 \<rparr>) \<and>
   getSimulatedDevicesFromLines
     [''== Device Types =='', ''== Devices =='', ''-- iOS 9.1'',
      ''iPhone 4s (05686243-BA24-44CE-94D9-D6823BF96E46) (Shutdown)''] =
     Inr [\<lparr> tag = ''ios-simulator,OS=9.,name=iPhone 4s'',
            platform = ''ios'',
            identifier' = ''05686243-BA24-44CE-94D9-D6823BF96E46'',
            name = ''ios-simulator iPhone 4s (9.)'',
            OS = ''iOS 9.'',
            simulator = True,
            destination = ''OS=9.,name=iPhone 4s'' \<rparr>]"
  by code_simp

section \<open>Where the enumeration stops\<close>

text \<open>
  Claim C7. When \<open>getOSLevelEntries\<close> returns, the cursor stands at the end of the
  lines or on a line that starts with \<open>==\<close>, and no line it passed starts with
  \<open>==\<close>: it stops exactly at the first \<open>==\<close> header at or after its start, or at
  the end. Nothing at or past that point contributes: every listing with the same lines
  before the stop, and the end or some \<open>==\<close> header there, gives the same devices and
  the same stop.
\<close>

theorem enumeration_stops_at_section:
  assumes "getOSLevelEntries \<lparr>lines = ls, nextIndex = i\<rparr> = Inr (devs, s')"
    and "i \<le> length ls"
  shows "lines s' = ls \<and> i \<le> nextIndex s' \<and> nextIndex s' \<le> length ls \<and>
     (nextIndex s' = length ls \<or> prefix ''=='' (ls ! nextIndex s')) \<and>
     (\<forall>j. i \<le> j \<and> j < nextIndex s' \<longrightarrow> \<not> prefix ''=='' (ls ! j)) \<and>
     (\<forall>ls'. take (nextIndex s') ls' = take (nextIndex s') ls \<and> nextIndex s' \<le> length ls' \<and>
            (nextIndex s' = length ls' \<or> prefix ''=='' (ls' ! nextIndex s')) \<longrightarrow>
        getOSLevelEntries \<lparr>lines = ls', nextIndex = i\<rparr> =
          Inr (devs, \<lparr>lines = ls', nextIndex = nextIndex s'\<rparr>))"
proof -
  let ?s = "\<lparr>lines = ls, nextIndex = i\<rparr>"
  let ?k = "nextIndex s'"
  from assms(1) have run: "osLevelLoop [] ?s = Inr (devs, s')"
    by (simp add: getOSLevelEntries_def)
  from osLevelLoop_returns [OF run]
  have ret: "lines s' = ls" "i \<le> ?k" "?k < length ls \<longrightarrow> prefix ''=='' (ls ! ?k)"
    "\<forall>j. i \<le> j \<and> j < ?k \<longrightarrow> j < length ls \<and> \<not> prefix ''=='' (ls ! j)"
    by simp_all
  have le: "?k \<le> length ls"
  proof (cases "i = ?k")
    case True
    with assms(2) show ?thesis by simp
  next
    case False
    with ret(2) have "i \<le> ?k - 1 \<and> ?k - 1 < ?k" by simp
    with ret(4) have "?k - 1 < length ls" by blast
    then show ?thesis by simp
  qed
  have stop: "?k = length ls \<or> prefix ''=='' (ls ! ?k)"
    using le ret(3) by (cases "?k = length ls") simp_all
  have cut: "getOSLevelEntries \<lparr>lines = ls', nextIndex = i\<rparr> =
          Inr (devs, \<lparr>lines = ls', nextIndex = ?k\<rparr>)"
    if "take ?k ls' = take ?k ls" "?k \<le> length ls'"
       "?k = length ls' \<or> prefix ''=='' (ls' ! ?k)" for ls'
  proof -
    have "osLevelLoop [] \<lparr>lines = ls', nextIndex = nextIndex ?s\<rparr> =
        (case osLevelLoop [] ?s of Inl e \<Rightarrow> Inl e
         | Inr (results', t) \<Rightarrow> Inr (results', \<lparr>lines = ls', nextIndex = nextIndex t\<rparr>))"
      by (rule osLevelLoop_agree [where k = ?k]) (use that ret(2) le stop in simp_all)
    with run show ?thesis by (simp add: getOSLevelEntries_def)
  qed
  from ret(1,2) le stop ret(4) cut show ?thesis by blast
qed

theorem enumeration_stops_at_section_witness:
  "getOSLevelEntries \<lparr>lines = simctl_lines, nextIndex = 5\<rparr> =
     Inr ([discovered_iphone], \<lparr>lines = simctl_lines, nextIndex = 8\<rparr>) \<and>
   getOSLevelEntries \<lparr>lines = take 8 simctl_lines, nextIndex = 5\<rparr> =
     Inr ([discovered_iphone], \<lparr>lines = take 8 simctl_lines, nextIndex = 8\<rparr>)"
proof -
  have run: "getOSLevelEntries \<lparr>lines = simctl_lines, nextIndex = 5\<rparr> =
     Inr ([discovered_iphone], \<lparr>lines = simctl_lines, nextIndex = 8\<rparr>)"
    by code_simp
  have len: "(5::nat) \<le> length simctl_lines" by (simp add: simctl_lines_def)
  from enumeration_stops_at_section [OF run len]
  have "\<forall>ls'. take 8 ls' = take 8 simctl_lines \<and> 8 \<le> length ls' \<and>
            (8 = length ls' \<or> prefix ''=='' (ls' ! 8)) \<longrightarrow>
        getOSLevelEntries \<lparr>lines = ls', nextIndex = 5\<rparr> =
          Inr ([discovered_iphone], \<lparr>lines = ls', nextIndex = 8\<rparr>)"
    by simp
  then have "getOSLevelEntries \<lparr>lines = take 8 simctl_lines, nextIndex = 5\<rparr> =
          Inr ([discovered_iphone], \<lparr>lines = take 8 simctl_lines, nextIndex = 8\<rparr>)"
    by (rule allE [where x = "take 8 simctl_lines"]) (simp add: simctl_lines_def)
  with run show ?thesis by simp
qed

section \<open>The registry: lookup and collisions of tags\<close>

lemma fold_register_devices:
  "devices (fold (register mk tg) js r) = devices r @ map mk js"
  by (induction js arbitrary: r) (simp_all add: register_def Let_def)

lemma fold_register_lookup:
  "devicesByTag (fold (register mk tg) js r) t =
     (if \<exists>j\<in>set js. tg (mk j) = t
      then Some (mk (last (filter (\<lambda>j. tg (mk j) = t) js)))
      else devicesByTag r t)"
proof (induction js rule: rev_induct)
  case Nil
  show ?case by simp
next
  case (snoc j js)
  show ?case
  proof (cases "tg (mk j) = t")
    case True
    then show ?thesis by (simp add: register_def Let_def)
  next
    case False
    with snoc show ?thesis by (simp add: register_def Let_def)
  qed
qed

lemma fold_register_dom:
  "dom (devicesByTag (fold (register mk tg) js r)) =
     dom (devicesByTag r) \<union> (\<lambda>j. tg (mk j)) ` set js"
  by (auto simp: dom_def fold_register_lookup split: if_splits)

lemma DeviceManager_success:
  assumes "getSimulatedDevices simctlData = Inr discovered"
  shows "DeviceManager mk tg cfg (Inr simctlData) =
     Inr (fold (register mk tg) (configDevices cfg @ discovered)
            \<lparr> devicesByTag = Map.empty, devices = [] \<rparr>)"
  using assms by (simp add: DeviceManager_def Let_def)

lemma closed_listing_devices: "getSimulatedDevices closed_listing = Inr [discovered_iphone]"
  by code_simp

text \<open>
  Claim C3. Once the registry is built, \<open>findByTag\<close> answers \<open>None\<close> (not found; it
  is a plain lookup and cannot raise) for every tag that neither a configured nor a discovered
  device carries. When a configured and a discovered device share a tag, \<open>findByTag\<close> on
  that tag answers a discovered device: the last discovered one with this tag, since the
  configured devices are registered first and a later entry overwrites an earlier one.
\<close>

theorem findByTag_registry:
  assumes "getSimulatedDevices simctlData = Inr discovered"
  shows "\<exists>reg. DeviceManager mk tag_of cfg (Inr simctlData) = Inr reg \<and>
     (\<forall>t. t \<notin> (\<lambda>j. tag_of (mk j)) ` (set (configDevices cfg) \<union> set discovered)
          \<longrightarrow> findByTag reg t = None) \<and>
     (\<forall>c\<in>set (configDevices cfg). \<forall>d\<in>set discovered.
        tag_of (mk c) = tag_of (mk d) \<longrightarrow>
        findByTag reg (tag_of (mk c)) =
          Some (mk (last (filter (\<lambda>j. tag_of (mk j) = tag_of (mk d)) discovered))))"
proof -
  let ?reg = "fold (register mk tag_of) (configDevices cfg @ discovered)
            \<lparr> devicesByTag = Map.empty, devices = [] \<rparr>"
  have find: "findByTag ?reg t = devicesByTag ?reg t" for t
    by (simp add: findByTag_def split: option.splits)
  have absent: "findByTag ?reg t = None"
    if "t \<notin> (\<lambda>j. tag_of (mk j)) ` (set (configDevices cfg) \<union> set discovered)" for t
  proof -
    from that have "\<not> (\<exists>j\<in>set (configDevices cfg @ discovered). tag_of (mk j) = t)"
      by auto
    then show ?thesis
      unfolding find fold_register_lookup by simp
  qed
  have shared: "findByTag ?reg (tag_of (mk c)) =
      Some (mk (last (filter (\<lambda>j. tag_of (mk j) = tag_of (mk d)) discovered)))"
    if "c \<in> set (configDevices cfg)" "d \<in> set discovered" "tag_of (mk c) = tag_of (mk d)" for c d
  proof -
    from that have ne: "filter (\<lambda>j. tag_of (mk j) = tag_of (mk d)) discovered \<noteq> []"
      by (auto simp: filter_empty_conv)
    have ex: "\<exists>j\<in>set (configDevices cfg @ discovered). tag_of (mk j) = tag_of (mk d)"
      using that by auto
    show ?thesis
      unfolding find fold_register_lookup that(3) using ex ne by simp
  qed
  from DeviceManager_success [OF assms] absent shared show ?thesis by blast
qed

theorem findByTag_registry_witness:
  "\<exists>reg. DeviceManager id tag (Some [configured_iphone]) (Inr closed_listing) = Inr reg \<and>
     findByTag reg ''android,name=Nexus 5'' = None \<and>
     findByTag reg ''ios-simulator,OS=9.1,name=iPhone 4s'' = Some discovered_iphone"
proof -
  from findByTag_registry [OF closed_listing_devices, of id tag "Some [configured_iphone]"]
  obtain reg where reg: "DeviceManager id tag (Some [configured_iphone]) (Inr closed_listing) = Inr reg"
    and absent: "\<And>t. t \<notin> (\<lambda>j. tag (id j)) ` (set (configDevices (Some [configured_iphone])) \<union> set [discovered_iphone])
          \<Longrightarrow> findByTag reg t = None"
    and shared: "\<And>c d. c \<in> set (configDevices (Some [configured_iphone])) \<Longrightarrow> d \<in> set [discovered_iphone] \<Longrightarrow>
        tag (id c) = tag (id d) \<Longrightarrow>
        findByTag reg (tag (id c)) =
          Some (id (last (filter (\<lambda>j. tag (id j) = tag (id d)) [discovered_iphone])))"
    by blast
  have 1: "findByTag reg ''android,name=Nexus 5'' = None"
    by (rule absent) (simp add: configDevices_def configured_iphone_def discovered_iphone_def)
  have 2: "findByTag reg ''ios-simulator,OS=9.1,name=iPhone 4s'' = Some discovered_iphone"
    using shared [of configured_iphone discovered_iphone]
    by (simp add: configDevices_def configured_iphone_def discovered_iphone_def)
  from reg 1 2 show ?thesis by blast
qed

text \<open>
  Claim C10. When two registered devices share a tag (a configured and a discovered one, or
  any two), the list \<open>devices\<close> still has an entry for each of them, in the order of
  registration, while \<open>devicesByTag\<close> has one key for every distinct tag and holds
  under it only the device registered last with that tag: the list is strictly longer than
  the map has keys. The indices \<open>i\<close> and \<open>j\<close> are positions in the configured
  devices followed by the discovered ones.
\<close>

theorem devices_list_keeps_duplicates:
  assumes "getSimulatedDevices simctlData = Inr discovered"
    and "i < j" and "j < length (configDevices cfg @ discovered)"
    and "tag_of (mk ((configDevices cfg @ discovered) ! i)) =
         tag_of (mk ((configDevices cfg @ discovered) ! j))"
  shows "\<exists>reg. DeviceManager mk tag_of cfg (Inr simctlData) = Inr reg \<and>
     devices reg = map mk (configDevices cfg @ discovered) \<and>
     devices reg ! i = mk ((configDevices cfg @ discovered) ! i) \<and>
     devices reg ! j = mk ((configDevices cfg @ discovered) ! j) \<and>
     dom (devicesByTag reg) = (\<lambda>d. tag_of (mk d)) ` set (configDevices cfg @ discovered) \<and>
     (\<forall>t\<in>dom (devicesByTag reg).
        devicesByTag reg t =
          Some (mk (last (filter (\<lambda>d. tag_of (mk d) = t) (configDevices cfg @ discovered))))) \<and>
     card (dom (devicesByTag reg)) < length (devices reg)"
proof -
  let ?all = "configDevices cfg @ discovered"
  let ?reg = "fold (register mk tag_of) ?all \<lparr> devicesByTag = Map.empty, devices = [] \<rparr>"
  let ?tags = "map (\<lambda>d. tag_of (mk d)) ?all"
  have devs: "devices ?reg = map mk ?all"
    by (simp add: fold_register_devices)
  have dom: "dom (devicesByTag ?reg) = set ?tags"
    by (simp add: fold_register_dom image_Un)
  have look: "devicesByTag ?reg t = Some (mk (last (filter (\<lambda>d. tag_of (mk d) = t) ?all)))"
    if "t \<in> dom (devicesByTag ?reg)" for t
  proof -
    from that dom have "\<exists>d\<in>set ?all. tag_of (mk d) = t" by auto
    then show ?thesis by (simp only: fold_register_lookup if_True)
  qed
  from assms(2,3) have il: "i < length ?all" by simp
  have "?tags ! i = tag_of (mk (?all ! i))" "?tags ! j = tag_of (mk (?all ! j))"
    using il assms(3) by (simp_all only: nth_map)
  with assms(4) have "?tags ! i = ?tags ! j" by simp
  moreover have "i < length ?tags" "j < length ?tags" "i \<noteq> j"
    using assms(2,3) by simp_all
  ultimately have "\<not> distinct ?tags"
    using nth_eq_iff_index_eq by blast
  then have "card (set ?tags) \<noteq> length ?tags"
    using card_distinct by blast
  with card_length [of ?tags] have "card (set ?tags) < length ?tags"
    by simp
  then have card: "card (dom (devicesByTag ?reg)) < length (devices ?reg)"
    unfolding dom devs by simp
  have di: "devices ?reg ! i = mk (?all ! i)" and dj: "devices ?reg ! j = mk (?all ! j)"
    unfolding devs using il assms(3) by (simp_all only: nth_map)
  have dom': "dom (devicesByTag ?reg) = (\<lambda>d. tag_of (mk d)) ` set ?all"
    unfolding dom by (simp only: set_map)
  from DeviceManager_success [OF assms(1), of mk tag_of cfg] devs di dj dom' look card
  show ?thesis by blast
qed

theorem devices_list_keeps_duplicates_witness:
  "\<exists>reg. DeviceManager id tag (Some [configured_iphone]) (Inr closed_listing) = Inr reg \<and>
     devices reg = [configured_iphone, discovered_iphone] \<and>
     dom (devicesByTag reg) = {''ios-simulator,OS=9.1,name=iPhone 4s''} \<and>
     devicesByTag reg ''ios-simulator,OS=9.1,name=iPhone 4s'' = Some discovered_iphone \<and>
     card (dom (devicesByTag reg)) < length (devices reg)"
proof -
  have all: "configDevices (Some [configured_iphone]) @ [discovered_iphone] =
      [configured_iphone, discovered_iphone]"
    by (simp add: configDevices_def)
  have 1: "(0::nat) < 1" by simp
  have 2: "1 < length (configDevices (Some [configured_iphone]) @ [discovered_iphone])"
    by (simp add: all)
  have 3: "tag (id ((configDevices (Some [configured_iphone]) @ [discovered_iphone]) ! 0)) =
      tag (id ((configDevices (Some [configured_iphone]) @ [discovered_iphone]) ! 1))"
    unfolding all by (simp add: configured_iphone_def discovered_iphone_def)
  from devices_list_keeps_duplicates
    [of closed_listing "[discovered_iphone]" 0 1 "Some [configured_iphone]" tag id,
     OF closed_listing_devices 1 2 3]
  obtain reg where reg: "DeviceManager id tag (Some [configured_iphone]) (Inr closed_listing) = Inr reg"
    and devs: "devices reg = map id (configDevices (Some [configured_iphone]) @ [discovered_iphone])"
    and dom: "dom (devicesByTag reg) =
       (\<lambda>d. tag (id d)) ` set (configDevices (Some [configured_iphone]) @ [discovered_iphone])"
    and look: "\<forall>t\<in>dom (devicesByTag reg). devicesByTag reg t =
       Some (id (last (filter (\<lambda>d. tag (id d) = t)
          (configDevices (Some [configured_iphone]) @ [discovered_iphone]))))"
    and card: "card (dom (devicesByTag reg)) < length (devices reg)"
    by blast
  have devs': "devices reg = [configured_iphone, discovered_iphone]"
    using devs unfolding all by simp
  have dom': "dom (devicesByTag reg) = {''ios-simulator,OS=9.1,name=iPhone 4s''}"
    using dom unfolding all by (simp add: configured_iphone_def discovered_iphone_def)
  have "''ios-simulator,OS=9.1,name=iPhone 4s'' \<in> dom (devicesByTag reg)"
    unfolding dom' by simp
  with look have "devicesByTag reg ''ios-simulator,OS=9.1,name=iPhone 4s'' =
       Some (id (last (filter (\<lambda>d. tag (id d) = ''ios-simulator,OS=9.1,name=iPhone 4s'')
          (configDevices (Some [configured_iphone]) @ [discovered_iphone]))))"
    by blast
  then have look': "devicesByTag reg ''ios-simulator,OS=9.1,name=iPhone 4s'' = Some discovered_iphone"
    unfolding all by (simp add: configured_iphone_def discovered_iphone_def)
  from reg devs' dom' look' card show ?thesis by blast
qed

section \<open>The checkout task: which failures reach the callback\<close>

lemma fold_stdout_other: "k \<noteq> ''version'' \<Longrightarrow> fold stdout cs m k = m k"
  by (induction cs arbitrary: m) (simp_all add: stdout_def)

lemma fold_stdout_version:
  "fold stdout cs m ''version'' =
     (if \<exists>c\<in>set cs. length c = 41
      then Some (trim (last (filter (\<lambda>c. length c = 41) cs)))
      else m ''version'')"
  by (induction cs rule: rev_induct) (simp_all add: stdout_def)

lemma run_effect:
  assumes "run exec c st = ((err, out), st')"
  shows "issued st' = issued st @ [\<lparr>call = c, failure = err, chunks = out\<rparr>]"
    and "output' st' = output' st"
  using assms by (auto simp: run_def split: prod.splits)

lemma mkdir_step_effect:
  assumes "mkdir_step exec co st = (err, st')"
  shows "\<exists>ev. issued st' = issued st @ [ev] \<and> failure ev = err \<and> output' st' = output' st"
proof -
  obtain e out s where r: "run exec \<lparr>cmd = ''mkdir'', args = [''-p'', co], cwd = None\<rparr> st = ((e, out), s)"
    by (metis prod.exhaust)
  with assms have "e = err" "s = st'" by (simp_all add: mkdir_step_def Let_def)
  with run_effect [OF r] show ?thesis by simp
qed

lemma init_step_effect:
  assumes "init_step exec ps rc co st = (err, st')"
  shows "\<exists>ev. issued st' = issued st @ [ev] \<and> failure ev = err \<and> output' st' = output' st"
proof -
  let ?a = "[''init'', ''-u'', checkout_url ps]
            @ (if truthy (branch ps) then [''-b'', the (branch ps)] else [])
            @ (if truthy (manifest_file ps) then [''-m'', the (manifest_file ps)] else [])"
  obtain e out s where r: "run exec \<lparr>cmd = rc, args = ?a, cwd = Some co\<rparr> st = ((e, out), s)"
    by (metis prod.exhaust)
  with assms have "e = err" "s = st'" by (simp_all add: init_step_def Let_def)
  with run_effect [OF r] show ?thesis by simp
qed

lemma sync_step_effect:
  assumes "sync_step exec rc co st = (err, st')"
  shows "\<exists>ev. issued st' = issued st @ [ev] \<and> failure ev = err \<and> output' st' = output' st"
proof -
  obtain e out s where r:
    "run exec \<lparr>cmd = rc, args = [''sync'', ''-d'', ''-c'', ''--jobs=4''], cwd = Some co\<rparr> st = ((e, out), s)"
    by (metis prod.exhaust)
  with assms have "e = err" "s = st'" by (simp_all add: sync_step_def Let_def)
  with run_effect [OF r] show ?thesis by simp
qed

lemma revision_step_effect:
  assumes "revision_step exec pr st = (err, st')"
  shows "err = None \<and> (\<exists>ev. issued st' = issued st @ [ev] \<and> cmd (call ev) = ''git'' \<and>
           args (call ev) = [''rev-parse'', ''HEAD''] \<and>
           output' st' = fold stdout (chunks ev) (output' st))"
proof -
  obtain e out s where r:
    "run exec \<lparr>cmd = ''git'', args = [''rev-parse'', ''HEAD''], cwd = Some pr\<rparr> st = ((e, out), s)"
    by (metis prod.exhaust)
  with assms have "err = None" "st' = s\<lparr>output' := fold stdout out (output' s)\<rparr>"
    by (simp_all add: revision_step_def Let_def)
  with run_effect [OF r] show ?thesis by simp
qed

lemma execute_cases:
  assumes "execute path_join ps ctx exec w = ((err, out), ctx', st)"
  shows
   "(\<exists>e. length (issued st) = 1 \<and> failure (issued st ! 0) = Some e \<and>
         err = Some e \<and> out = Map.empty) \<or>
    (\<exists>e. length (issued st) = 2 \<and> failure (issued st ! 0) = None \<and>
         failure (issued st ! 1) = Some e \<and> err = Some e \<and> out = Map.empty) \<or>
    (\<exists>e. length (issued st) = 3 \<and> failure (issued st ! 0) = None \<and>
         failure (issued st ! 1) = None \<and> failure (issued st ! 2) = Some e \<and>
         err = Some e \<and> out = Map.empty) \<or>
    (length (issued st) = 4 \<and> failure (issued st ! 0) = None \<and>
         failure (issued st ! 1) = None \<and> failure (issued st ! 2) = None \<and>
         cmd (call (issued st ! 3)) = ''git'' \<and>
         args (call (issued st ! 3)) = [''rev-parse'', ''HEAD''] \<and>
         err = None \<and> out = fold stdout (chunks (issued st ! 3)) Map.empty)"
proof -
  define co where "co = path_join [working_dir ctx, ''project'']"
  define pr where "pr = (if truthy (project_root ps)
                     then path_join [co, the (project_root ps)] else co)"
  define rc where "rc = path_join [bin_dir ctx, ''repo'', ''repo'']"
  define st0 :: "('a, 'b) run_state" where "st0 = \<lparr>output' = Map.empty, world = w, issued = []\<rparr>"
  have ex: "series [mkdir_step exec co, init_step exec ps rc co, sync_step exec rc co,
                    revision_step exec pr] st0 = (err, st)" and out: "out = output' st"
    using assms
    unfolding execute_def Let_def co_def [symmetric] pr_def [symmetric] rc_def [symmetric]
      st0_def [symmetric]
    by (auto split: prod.splits)
  obtain e1 s1 where 1: "mkdir_step exec co st0 = (e1, s1)" by (metis prod.exhaust)
  obtain e2 s2 where 2: "init_step exec ps rc co s1 = (e2, s2)" by (metis prod.exhaust)
  obtain e3 s3 where 3: "sync_step exec rc co s2 = (e3, s3)" by (metis prod.exhaust)
  obtain e4 s4 where 4: "revision_step exec pr s3 = (e4, s4)" by (metis prod.exhaust)
  from mkdir_step_effect [OF 1] obtain ev1 where
    i1: "issued s1 = [ev1]" "failure ev1 = e1" "output' s1 = Map.empty"
    by (auto simp: st0_def)
  from init_step_effect [OF 2] i1 obtain ev2 where
    i2: "issued s2 = [ev1, ev2]" "failure ev2 = e2" "output' s2 = Map.empty"
    by auto
  from sync_step_effect [OF 3] i2 obtain ev3 where
    i3: "issued s3 = [ev1, ev2, ev3]" "failure ev3 = e3" "output' s3 = Map.empty"
    by auto
  from revision_step_effect [OF 4] i3 obtain ev4 where
    i4: "e4 = None" "issued s4 = [ev1, ev2, ev3, ev4]" "cmd (call ev4) = ''git''"
      "args (call ev4) = [''rev-parse'', ''HEAD'']"
      "output' s4 = fold stdout (chunks ev4) Map.empty"
    by auto
  show ?thesis
  proof (cases e1)
    case (Some e)
    with ex 1 have "err = Some e" "st = s1" by simp_all
    with i1 Some out show ?thesis by simp
  next
    case n1: None
    show ?thesis
    proof (cases e2)
      case (Some e)
      with ex 1 2 n1 have "err = Some e" "st = s2" by simp_all
      with i1 i2 n1 Some out show ?thesis by simp
    next
      case n2: None
      show ?thesis
      proof (cases e3)
        case (Some e)
        with ex 1 2 3 n1 n2 have "err = Some e" "st = s3" by simp_all
        with i1 i2 i3 n1 n2 Some out show ?thesis by simp
      next
        case n3: None
        with ex 1 2 3 4 n1 n2 i4(1) have "err = None" "st = s4" by simp_all
        with i1 i2 i3 i4 n1 n2 n3 out show ?thesis by simp
      qed
    qed
  qed
qed

lemma git_fails_run:
  "execute simple_join checkout_params worker_context git_fails () =
     ((None, Map.empty),
      worker_context\<lparr>checkout_root := Some ''/tmp/job/project'',
                       context_project_root := Some ''/tmp/job/project''\<rparr>,
      \<lparr>output' = Map.empty, world = (),
       issued =
         [\<lparr>call = \<lparr>cmd = ''mkdir'', args = [''-p'', ''/tmp/job/project''], cwd = None\<rparr>,
           failure = None, chunks = [''ok'']\<rparr>,
          \<lparr>call = \<lparr>cmd = ''/opt/bin/repo/repo'',
                    args = [''init'', ''-u'', ''https://example.org/manifest.git'', ''-b'', ''master''],
                    cwd = Some ''/tmp/job/project''\<rparr>,
           failure = None, chunks = [''ok'']\<rparr>,
          \<lparr>call = \<lparr>cmd = ''/opt/bin/repo/repo'',
                    args = [''sync'', ''-d'', ''-c'', ''--jobs=4''],
                    cwd = Some ''/tmp/job/project''\<rparr>,
           failure = None, chunks = [''ok'']\<rparr>,
          \<lparr>call = \<lparr>cmd = ''git'', args = [''rev-parse'', ''HEAD''],
                    cwd = Some ''/tmp/job/project''\<rparr>,
           failure = Some ''fatal: not a git repository'', chunks = []\<rparr>]\<rparr>)"
  by (simp add: execute_def mkdir_step_def init_step_def sync_step_def revision_step_def
        run_def Let_def git_fails_def checkout_params_def worker_context_def truthy_def)

lemma sync_fails_run:
  "execute simple_join checkout_params worker_context sync_fails () =
     ((Some ''error: sync failed'', Map.empty),
      worker_context\<lparr>checkout_root := Some ''/tmp/job/project'',
                       context_project_root := Some ''/tmp/job/project''\<rparr>,
      \<lparr>output' = Map.empty, world = (),
       issued =
         [\<lparr>call = \<lparr>cmd = ''mkdir'', args = [''-p'', ''/tmp/job/project''], cwd = None\<rparr>,
           failure = None, chunks = []\<rparr>,
          \<lparr>call = \<lparr>cmd = ''/opt/bin/repo/repo'',
                    args = [''init'', ''-u'', ''https://example.org/manifest.git'', ''-b'', ''master''],
                    cwd = Some ''/tmp/job/project''\<rparr>,
           failure = None, chunks = []\<rparr>,
          \<lparr>call = \<lparr>cmd = ''/opt/bin/repo/repo'',
                    args = [''sync'', ''-d'', ''-c'', ''--jobs=4''],
                    cwd = Some ''/tmp/job/project''\<rparr>,
           failure = Some ''error: sync failed'', chunks = []\<rparr>]\<rparr>)"
  by (simp add: execute_def mkdir_step_def init_step_def sync_step_def revision_step_def
        run_def Let_def sync_fails_def checkout_params_def worker_context_def truthy_def)

text \<open>
  Claim C8, as amended. When one of the first three commands of the checkout task
  (\<open>mkdir\<close>, \<open>repo init\<close>, \<open>repo sync\<close>) fails, the task issues no further
  command, hands that error to the callback, and returns the output as it stood before the
  failing call, which holds no key; in particular a failing \<open>repo sync\<close> leaves no
  recorded revision. The index \<open>n\<close> counts the issued commands from 0.
\<close>

theorem failing_command_stops_task:
  assumes "execute path_join ps ctx exec w = ((err, out), ctx', st)"
    and "n < 3" and "n < length (issued st)" and "failure (issued st ! n) = Some e"
  shows "length (issued st) = n + 1 \<and> err = Some e \<and> out = Map.empty \<and>
         out ''version'' = None"
proof -
  from assms(2) have "n = 0 \<or> n = 1 \<or> n = 2" by arith
  with execute_cases [OF assms(1)] assms(3,4) show ?thesis
    by (elim disjE exE conjE) simp_all
qed

theorem failing_command_stops_task_witness:
  "length (issued (snd (snd (execute simple_join checkout_params worker_context sync_fails ())))) = 3 \<and>
   fst (execute simple_join checkout_params worker_context sync_fails ()) =
     (Some ''error: sync failed'', Map.empty)"
proof -
  let ?E = "execute simple_join checkout_params worker_context sync_fails ()"
  have run: "?E = ((fst (fst ?E), snd (fst ?E)), fst (snd ?E), snd (snd ?E))"
    by simp
  have 1: "(2::nat) < 3" by simp
  have 2: "2 < length (issued (snd (snd ?E)))" by (simp add: sync_fails_run)
  have 3: "failure (issued (snd (snd ?E)) ! 2) = Some ''error: sync failed''"
    by (simp add: sync_fails_run)
  from failing_command_stops_task [OF run 1 2 3]
  have "length (issued (snd (snd ?E))) = 3" "fst (fst ?E) = Some ''error: sync failed''"
    "snd (fst ?E) = Map.empty"
    by simp_all
  then show ?thesis by (simp add: prod_eq_iff)
qed

text \<open>
  The fourth command is outside this rule: when only \<open>git rev-parse\<close> fails, the
  callback receives no error.
\<close>

theorem swallowed_failure_counterexample:
  "failure (issued (snd (snd (execute simple_join checkout_params worker_context git_fails ()))) ! 3) =
     Some ''fatal: not a git repository'' \<and>
   fst (fst (execute simple_join checkout_params worker_context git_fails ())) = None"
  by (simp add: git_fails_run)

text \<open>
  Claim C9. The step that reads the revision never propagates a failure: once
  \<open>git rev-parse\<close> has been issued (it is the fourth call), the callback receives no
  error, whatever the runner answered; an error at the callback is the failure of the last
  issued one of the first three commands. The key \<open>version\<close> is present only if the
  fourth call delivered a chunk of exactly 41 characters, and its value is that chunk
  trimmed; when no delivered chunk has 41 characters, the task succeeds with \<open>version\<close>
  absent.
\<close>

theorem revision_step_never_fails:
  assumes "execute path_join ps ctx exec w = ((err, out), ctx', st)"
  shows "(length (issued st) = 4 \<longrightarrow> err = None \<and> cmd (call (issued st ! 3)) = ''git'') \<and>
         (\<forall>e. err = Some e \<longrightarrow> length (issued st) \<le> 3 \<and>
            failure (issued st ! (length (issued st) - 1)) = Some e) \<and>
         (\<forall>v. out ''version'' = Some v \<longrightarrow>
            length (issued st) = 4 \<and>
            (\<exists>data\<in>set (chunks (issued st ! 3)). length data = 41 \<and> v = trim data)) \<and>
         (length (issued st) = 4 \<and> (\<forall>data\<in>set (chunks (issued st ! 3)). length data \<noteq> 41)
            \<longrightarrow> err = None \<and> out ''version'' = None)"
proof -
  have pick: "\<exists>data\<in>set cs. length data = 41 \<and> v = trim data"
    if "fold stdout cs Map.empty ''version'' = Some v" for cs v
  proof -
    from that have ex: "\<exists>c\<in>set cs. length c = 41"
      by (simp add: fold_stdout_version split: if_splits)
    then have ne: "filter (\<lambda>c. length c = 41) cs \<noteq> []"
      by (simp add: filter_empty_conv)
    from that ex have v: "v = trim (last (filter (\<lambda>c. length c = 41) cs))"
      by (simp add: fold_stdout_version)
    from last_in_set [OF ne] have "last (filter (\<lambda>c. length c = 41) cs) \<in> set cs"
      "length (last (filter (\<lambda>c. length c = 41) cs)) = 41"
      by simp_all
    with v show ?thesis by blast
  qed
  have none: "fold stdout cs Map.empty ''version'' = None"
    if "\<forall>data\<in>set cs. length data \<noteq> 41" for cs
    using that by (simp add: fold_stdout_version)
  from execute_cases [OF assms] show ?thesis
  proof (elim disjE exE conjE)
    assume "length (issued st) = 4" "err = None"
      "cmd (call (issued st ! 3)) = ''git''"
      "out = fold stdout (chunks (issued st ! 3)) Map.empty"
    then show ?thesis using pick none by auto
  qed simp_all
qed

theorem revision_step_never_fails_witness:
  "failure (issued (snd (snd (execute simple_join checkout_params worker_context git_fails ()))) ! 3) =
     Some ''fatal: not a git repository'' \<and>
   fst (fst (execute simple_join checkout_params worker_context git_fails ())) = None \<and>
   snd (fst (execute simple_join checkout_params worker_context git_fails ())) ''version'' = None"
proof -
  let ?st = "snd (snd (execute simple_join checkout_params worker_context git_fails ()))"
  have len: "length (issued ?st) = 4" by (simp add: git_fails_run)
  have nochunk: "\<forall>data\<in>set (chunks (issued ?st ! 3)). length data \<noteq> 41"
    by (simp add: git_fails_run)
  have fail: "failure (issued ?st ! 3) = Some ''fatal: not a git repository''"
    by (simp add: git_fails_run)
  have run: "execute simple_join checkout_params worker_context git_fails () =
      ((fst (fst (execute simple_join checkout_params worker_context git_fails ())),
        snd (fst (execute simple_join checkout_params worker_context git_fails ()))),
       fst (snd (execute simple_join checkout_params worker_context git_fails ())), ?st)"
    by simp
  from revision_step_never_fails [OF run] len nochunk
  have "fst (fst (execute simple_join checkout_params worker_context git_fails ())) = None \<and>
        snd (fst (execute simple_join checkout_params worker_context git_fails ())) ''version'' = None"
    by blast
  with fail show ?thesis by blast
qed

end
